theory Spec2Isabelle
  imports Main "HOL-Library.Word" "HOL-Library.Signed_Division"
begin

section \<open>Machine integers of the Go sources\<close>

text \<open>
  Go's \<open>int\<close> is taken at its 64-bit width: addition and subtraction wrap, comparisons
  are signed, and \<open>/\<close> and \<open>%\<close> truncate towards zero.
\<close>

type_synonym gint = "64 word"
type_synonym byte = "8 word"

definition go_div :: "gint \<Rightarrow> gint \<Rightarrow> gint" where
  "go_div a b = word_of_int (sint a sdiv sint b)"

definition go_mod :: "gint \<Rightarrow> gint \<Rightarrow> gint" where
  "go_mod a b = word_of_int (sint a smod sint b)"

text \<open>An index into a Go array of length \<open>n\<close> is legal when \<open>0 \<le> i < n\<close>; otherwise the
  access panics.\<close>

definition in_bounds :: "gint \<Rightarrow> gint \<Rightarrow> bool" where
  "in_bounds i n \<longleftrightarrow> 0 \<le>s i \<and> i <s n"

text \<open>How a call ends when it does not return normally: the panics of the runtime, the
  errors of the file system and the encoders, \<open>log.Fatal\<close> on such an error, and
  \<open>NoReturn\<close> for a loop that never ends.\<close>

datatype error =
    IndexOutOfRange
  | NilPointer
  | OpenError
  | CreateError
  | GzipError
  | ReadError
  | DecodeError
  | EncodeError
  | Fatal error
  | NoReturn

section \<open>world/world.go: sections, the section cache and the loader\<close>

definition SECTION_SIZE :: gint where "SECTION_SIZE = 200"
definition SECTION_Z_SIZE :: gint where "SECTION_Z_SIZE = 24"
definition VERSION :: byte where "VERSION = 1"
definition EDITOR_MODE :: gint where "EDITOR_MODE = 0"
definition RUNNER_MODE :: gint where "RUNNER_MODE = 1"

record Position =
  Shape :: gint

text \<open>The arrays \<open>[200][200][24]Position\<close> and \<open>[200][200]Position\<close> are functions of
  their indices; every access below is guarded by \<open>in_bounds\<close>, as the Go runtime
  guards it.\<close>

type_synonym posarray = "gint \<Rightarrow> gint \<Rightarrow> gint \<Rightarrow> Position"
type_synonym edgearray = "gint \<Rightarrow> gint \<Rightarrow> Position"

record Section =
  sec_X :: gint
  sec_Y :: gint
  position :: posarray
  edges :: edgearray

record SectionCache =
  cache :: "Section option list"
  times :: "64 word list"

definition NewSectionCache :: SectionCache where
  "NewSectionCache = \<lparr>cache = replicate 4 None, times = replicate 4 0\<rparr>"

datatype event = SectionLoad gint gint | SectionSave gint gint

type_synonym path = "string list"

text \<open>
  The loader, together with the two things it reaches outside the process: the calls
  made on its observer, recorded in order in \<open>observer\<close>, and the file system, a map
  \<open>disk\<close> from paths to file contents with a set \<open>denied\<close> of paths the operating
  system refuses to open or create. A path is the list of components handed to
  \<open>filepath.Join\<close>.
\<close>

record Loader =
  observer :: "event list"
  userDir :: string
  gameDir :: string
  loader_X :: gint
  loader_Y :: gint
  sectionCache :: SectionCache
  ioMode :: gint
  disk :: "path \<rightharpoonup> byte list"
  denied :: "path set"

definition NewLoader :: "string \<Rightarrow> string \<Rightarrow> Loader" where
  "NewLoader ud gd =
     \<lparr>observer = [], userDir = ud, gameDir = gd, loader_X = 5000, loader_Y = 5000,
      sectionCache = NewSectionCache, ioMode = EDITOR_MODE,
      disk = Map.empty, denied = {}\<rparr>"

definition SetIoMode :: "gint \<Rightarrow> Loader \<Rightarrow> Loader" where
  "SetIoMode mode loader = loader\<lparr>ioMode := mode\<rparr>"

definition MoveTo :: "gint \<Rightarrow> gint \<Rightarrow> Loader \<Rightarrow> bool \<times> Loader" where
  "MoveTo x y loader =
     (if 0 \<le>s x \<and> 0 \<le>s y \<and> (loader_X loader \<noteq> x \<or> loader_Y loader \<noteq> y)
      then (True, loader\<lparr>loader_X := x, loader_Y := y\<rparr>)
      else (False, loader))"

subsection \<open>File names\<close>

definition hexdigit :: "nat \<Rightarrow> char" where
  "hexdigit d = ''0123456789abcdef'' ! d"

fun hexnat :: "nat \<Rightarrow> string" where
  "hexnat n = (if n < 16 then [hexdigit n] else hexnat (n div 16) @ [hexdigit (n mod 16)])"

declare hexnat.simps [simp del]

text \<open>\<open>%02x\<close> of a signed integer: the sign, then the hexadecimal digits of the
  magnitude, padded with zeros to a total width of two.\<close>

definition fmt02x :: "gint \<Rightarrow> string" where
  "fmt02x v =
     (let ds = hexnat (nat \<bar>sint v\<bar>) in
      if sint v < 0 then CHR ''-'' # ds
      else replicate (2 - length ds) CHR ''0'' @ ds)"

definition mapFileName :: "gint \<Rightarrow> gint \<Rightarrow> string" where
  "mapFileName sx sy = ''map'' @ fmt02x sx @ fmt02x sy"

subsection \<open>The encoders of the standard library\<close>

text \<open>
  \<open>compress/gzip\<close> and \<open>encoding/gob\<close> are not part of the repository. They enter as a
  parameter: what a gzip writer leaves in the file for a given stream and what a gzip
  reader recovers from a file, and for each of the two array types what the gob
  encoder appends to the stream and what the gob decoder takes off its front.
\<close>

record codec =
  gzip_write :: "byte list \<Rightarrow> byte list"
  gzip_read :: "byte list \<Rightarrow> byte list option"
  gob_enc_position :: "posarray \<Rightarrow> byte list option"
  gob_dec_position :: "byte list \<Rightarrow> (posarray \<times> byte list) option"
  gob_enc_edges :: "edgearray \<Rightarrow> byte list option"
  gob_dec_edges :: "byte list \<Rightarrow> (edgearray \<times> byte list) option"

subsection \<open>load and save\<close>

definition load_path :: "Loader \<Rightarrow> gint \<Rightarrow> gint \<Rightarrow> path" where
  "load_path loader sx sy =
     (let mapName = mapFileName sx sy in
      if ioMode loader = EDITOR_MODE then [gameDir loader, ''maps'', mapName]
      else if disk loader [userDir loader, mapName] = None
           then [gameDir loader, ''maps'', mapName]
           else [userDir loader, mapName])"

definition load :: "codec \<Rightarrow> gint \<Rightarrow> gint \<Rightarrow> Loader \<Rightarrow> error + Section" where
  "load cd sx sy loader =
     (let section = \<lparr>sec_X = sx, sec_Y = sy,
                      position = (\<lambda>_ _ _. \<lparr>Shape = 0\<rparr>), edges = (\<lambda>_ _. \<lparr>Shape = 0\<rparr>)\<rparr>;
          path = load_path loader sx sy
      in case disk loader path of
           None \<Rightarrow> Inr section
         | Some bytes \<Rightarrow>
             if path \<in> denied loader then Inl OpenError
             else (case gzip_read cd bytes of
                 None \<Rightarrow> Inl GzipError
               | Some [] \<Rightarrow> Inl ReadError
               | Some (version # rest) \<Rightarrow>
                   (case gob_dec_position cd rest of
                      None \<Rightarrow> Inl DecodeError
                    | Some (p, rest') \<Rightarrow>
                        (case gob_dec_edges cd rest' of
                           None \<Rightarrow> Inl DecodeError
                         | Some (e, _) \<Rightarrow> Inr (section\<lparr>position := p, edges := e\<rparr>)))))"

definition save_path :: "Loader \<Rightarrow> Section \<Rightarrow> path" where
  "save_path loader section =
     (let mapName = mapFileName (sec_X section) (sec_Y section) in
      if ioMode loader = EDITOR_MODE then [gameDir loader, ''maps'', mapName]
      else [userDir loader, mapName])"

text \<open>\<open>save\<close> returns its error, if any, and the loader with the file system as the call
  leaves it: the deferred \<open>fz.Close()\<close> and \<open>f.Close()\<close> flush whatever was written
  before an encoder error.\<close>

definition save :: "codec \<Rightarrow> Section \<Rightarrow> Loader \<Rightarrow> error option \<times> Loader" where
  "save cd section loader =
     (let path = save_path loader section in
      if path \<in> denied loader then (Some CreateError, loader)
      else
        let b = [VERSION] in
        case gob_enc_position cd (position section) of
          None \<Rightarrow> (Some EncodeError,
                     loader\<lparr>disk := (disk loader)(path \<mapsto> gzip_write cd b)\<rparr>)
        | Some pb \<Rightarrow>
            (case gob_enc_edges cd (edges section) of
               None \<Rightarrow> (Some EncodeError,
                          loader\<lparr>disk := (disk loader)(path \<mapsto> gzip_write cd (b @ pb))\<rparr>)
             | Some eb \<Rightarrow> (None,
                          loader\<lparr>disk := (disk loader)(path \<mapsto> gzip_write cd (b @ pb @ eb))\<rparr>)))"

subsection \<open>getSection\<close>

definition slot_holds :: "Section option \<Rightarrow> gint \<Rightarrow> gint \<Rightarrow> bool" where
  "slot_holds c sx sy =
     (case c of None \<Rightarrow> False | Some s \<Rightarrow> sec_X s = sx \<and> sec_Y s = sy)"

text \<open>The \<open>for\<close> loop of \<open>getSection\<close> over the slot indices still to visit, with the
  running \<open>oldestIndex\<close> (\<open>-1\<close> at the start). \<open>Inl i\<close>: the section is resident in slot
  \<open>i\<close> and the loop returned there. \<open>Inr k\<close>: the loop ran out with \<open>oldestIndex = k\<close>.\<close>

fun scan_cache :: "SectionCache \<Rightarrow> gint \<Rightarrow> gint \<Rightarrow> nat list \<Rightarrow> int \<Rightarrow> nat + int" where
  "scan_cache sc sx sy [] oldestIndex = Inr oldestIndex"
| "scan_cache sc sx sy (i # rest) oldestIndex =
     (if slot_holds (cache sc ! i) sx sy then Inl i
      else scan_cache sc sx sy rest
             (if oldestIndex = -1 \<or> times sc ! i <s times sc ! nat oldestIndex
              then int i else oldestIndex))"

text \<open>\<open>getSection\<close> takes the reading \<open>now\<close> of \<open>time.Now().Unix()\<close> as an argument. A
  section pointer it returns always points into the cache: the result is the index of
  that slot. The loader is returned on every path, since the observer and the disk
  keep what happened before an error.\<close>

definition getSection ::
  "codec \<Rightarrow> 64 word \<Rightarrow> gint \<Rightarrow> gint \<Rightarrow> Loader \<Rightarrow> (error + nat) \<times> Loader" where
  "getSection cd now sx sy loader =
     (let sc = sectionCache loader in
      case scan_cache sc sx sy [0..<length (cache sc)] (-1) of
        Inl i \<Rightarrow> (Inr i, loader\<lparr>sectionCache := sc\<lparr>times := (times sc)[i := now]\<rparr>\<rparr>)
      | Inr oldest \<Rightarrow>
          if oldest < 0 \<or> int (length (cache sc)) \<le> oldest then (Inl IndexOutOfRange, loader)
          else
            (let oldestIndex = nat oldest;
                (err, loader1) =
                  (case cache sc ! oldestIndex of
                     None \<Rightarrow> (None, loader)
                   | Some oldSection \<Rightarrow>
                       save cd oldSection
                         (loader\<lparr>observer := observer loader @
                                   [SectionSave (sec_X oldSection) (sec_Y oldSection)]\<rparr>))
            in case err of
                 Some e \<Rightarrow> (Inl e, loader1)
               | None \<Rightarrow>
                   (case load cd sx sy loader1 of
                      Inl e \<Rightarrow> (Inl e, loader1)
                    | Inr section \<Rightarrow>
                        (Inr oldestIndex,
                         loader1\<lparr>sectionCache :=
                                    \<lparr>cache = (cache sc)[oldestIndex := Some section],
                                     times = (times sc)[oldestIndex := now]\<rparr>,
                                  observer := observer loader1 @ [SectionLoad sx sy]\<rparr>))))"

definition SaveAll_loop :: "codec \<Rightarrow> Section option list \<Rightarrow> Loader \<Rightarrow> error option \<times> Loader" where
  "SaveAll_loop cd cs loader =
     foldl (\<lambda>(err, l) c.
              case err of Some e \<Rightarrow> (Some e, l)
              | None \<Rightarrow> (case c of None \<Rightarrow> (None, l) | Some s \<Rightarrow> save cd s l))
           (None, loader) cs"

definition SaveAll :: "codec \<Rightarrow> Loader \<Rightarrow> error option \<times> Loader" where
  "SaveAll cd loader = SaveAll_loop cd (cache (sectionCache loader)) loader"

subsection \<open>Addressing a cell\<close>

text \<open>\<open>getPosInSection\<close>: \<open>log.Fatal\<close> ends the process when \<open>getSection\<close> fails.\<close>

definition getPosInSection ::
  "codec \<Rightarrow> 64 word \<Rightarrow> gint \<Rightarrow> gint \<Rightarrow> gint \<Rightarrow> Loader
     \<Rightarrow> (error + nat \<times> gint \<times> gint \<times> gint) \<times> Loader" where
  "getPosInSection cd now worldX worldY worldZ loader =
     (let sx = go_div worldX SECTION_SIZE;
          sy = go_div worldY SECTION_SIZE
      in case getSection cd now sx sy loader of
           (Inl err, loader') \<Rightarrow> (Inl (Fatal err), loader')
         | (Inr section, loader') \<Rightarrow>
             (let atomX = go_mod worldX SECTION_SIZE;
                  atomY = go_mod worldY SECTION_SIZE;
                  atomZ = worldZ
              in (Inr (section, atomX, atomY, atomZ), loader')))"

text \<open>Reading and writing through the section pointer, with the checks of the runtime:
  the pointer must not be nil and each index must be inside its array.\<close>

definition read_position ::
  "Loader \<Rightarrow> nat \<Rightarrow> gint \<Rightarrow> gint \<Rightarrow> gint \<Rightarrow> error + gint" where
  "read_position loader section atomX atomY atomZ =
     (case cache (sectionCache loader) ! section of
        None \<Rightarrow> Inl NilPointer
      | Some s \<Rightarrow>
          if in_bounds atomX SECTION_SIZE \<and> in_bounds atomY SECTION_SIZE
             \<and> in_bounds atomZ SECTION_Z_SIZE
          then Inr (Shape (position s atomX atomY atomZ))
          else Inl IndexOutOfRange)"

definition write_position ::
  "Loader \<Rightarrow> nat \<Rightarrow> gint \<Rightarrow> gint \<Rightarrow> gint \<Rightarrow> gint \<Rightarrow> error + Loader" where
  "write_position loader section atomX atomY atomZ v =
     (let sc = sectionCache loader in
      case cache sc ! section of
        None \<Rightarrow> Inl NilPointer
      | Some s \<Rightarrow>
          if in_bounds atomX SECTION_SIZE \<and> in_bounds atomY SECTION_SIZE
             \<and> in_bounds atomZ SECTION_Z_SIZE
          then Inr (loader\<lparr>sectionCache := sc\<lparr>cache := (cache sc)
                      [section := Some (s\<lparr>position := (position s)
                          (atomX := (position s atomX)
                             (atomY := (position s atomX atomY)
                                (atomZ := \<lparr>Shape = v\<rparr>)))\<rparr>)]\<rparr>\<rparr>)
          else Inl IndexOutOfRange)"

definition read_edge :: "Loader \<Rightarrow> nat \<Rightarrow> gint \<Rightarrow> gint \<Rightarrow> error + gint" where
  "read_edge loader section atomX atomY =
     (case cache (sectionCache loader) ! section of
        None \<Rightarrow> Inl NilPointer
      | Some s \<Rightarrow>
          if in_bounds atomX SECTION_SIZE \<and> in_bounds atomY SECTION_SIZE
          then Inr (Shape (edges s atomX atomY))
          else Inl IndexOutOfRange)"

definition write_edge :: "Loader \<Rightarrow> nat \<Rightarrow> gint \<Rightarrow> gint \<Rightarrow> gint \<Rightarrow> error + Loader" where
  "write_edge loader section atomX atomY v =
     (let sc = sectionCache loader in
      case cache sc ! section of
        None \<Rightarrow> Inl NilPointer
      | Some s \<Rightarrow>
          if in_bounds atomX SECTION_SIZE \<and> in_bounds atomY SECTION_SIZE
          then Inr (loader\<lparr>sectionCache := sc\<lparr>cache := (cache sc)
                      [section := Some (s\<lparr>edges := (edges s)
                          (atomX := (edges s atomX)(atomY := \<lparr>Shape = v\<rparr>))\<rparr>)]\<rparr>\<rparr>)
          else Inl IndexOutOfRange)"

subsection \<open>Shapes and edges\<close>

definition ClearEdge :: "codec \<Rightarrow> 64 word \<Rightarrow> gint \<Rightarrow> gint \<Rightarrow> Loader \<Rightarrow> (error + unit) \<times> Loader" where
  "ClearEdge cd now x y loader =
     (case getPosInSection cd now x y 0 loader of
        (Inl err, loader') \<Rightarrow> (Inl err, loader')
      | (Inr (section, atomX, atomY, _), loader') \<Rightarrow>
          (case write_edge loader' section atomX atomY 0 of
             Inl err \<Rightarrow> (Inl err, loader')
           | Inr loader'' \<Rightarrow> (Inr (), loader'')))"

definition SetEdge ::
  "codec \<Rightarrow> 64 word \<Rightarrow> gint \<Rightarrow> gint \<Rightarrow> gint \<Rightarrow> Loader \<Rightarrow> (error + unit) \<times> Loader" where
  "SetEdge cd now x y shapeIndex loader =
     (case getPosInSection cd now x y 0 loader of
        (Inl err, loader') \<Rightarrow> (Inl err, loader')
      | (Inr (section, atomX, atomY, _), loader') \<Rightarrow>
          (case write_edge loader' section atomX atomY (shapeIndex + 1) of
             Inl err \<Rightarrow> (Inl err, loader')
           | Inr loader'' \<Rightarrow> (Inr (), loader'')))"

definition GetEdge ::
  "codec \<Rightarrow> 64 word \<Rightarrow> gint \<Rightarrow> gint \<Rightarrow> Loader \<Rightarrow> (error + gint \<times> bool) \<times> Loader" where
  "GetEdge cd now x y loader =
     (case getPosInSection cd now x y 0 loader of
        (Inl err, loader') \<Rightarrow> (Inl err, loader')
      | (Inr (section, atomX, atomY, _), loader') \<Rightarrow>
          (case read_edge loader' section atomX atomY of
             Inl err \<Rightarrow> (Inl err, loader')
           | Inr shapeIndex \<Rightarrow>
               if shapeIndex = 0 then (Inr (0, False), loader')
               else (Inr (shapeIndex - 1, True), loader')))"

definition SetShape ::
  "codec \<Rightarrow> 64 word \<Rightarrow> gint \<Rightarrow> gint \<Rightarrow> gint \<Rightarrow> gint \<Rightarrow> Loader \<Rightarrow> (error + bool) \<times> Loader" where
  "SetShape cd now x y z shapeIndex loader =
     (case getPosInSection cd now x y z loader of
        (Inl err, loader') \<Rightarrow> (Inl err, loader')
      | (Inr (section, atomX, atomY, atomZ), loader') \<Rightarrow>
          (case write_position loader' section atomX atomY atomZ (shapeIndex + 1) of
             Inl err \<Rightarrow> (Inl err, loader')
           | Inr loader'' \<Rightarrow> (Inr True, loader'')))"

definition EraseShape ::
  "codec \<Rightarrow> 64 word \<Rightarrow> gint \<Rightarrow> gint \<Rightarrow> gint \<Rightarrow> Loader \<Rightarrow> (error + bool) \<times> Loader" where
  "EraseShape cd now x y z loader =
     (case getPosInSection cd now x y z loader of
        (Inl err, loader') \<Rightarrow> (Inl err, loader')
      | (Inr (section, atomX, atomY, atomZ), loader') \<Rightarrow>
          (case read_position loader' section atomX atomY atomZ of
             Inl err \<Rightarrow> (Inl err, loader')
           | Inr shapeIndex \<Rightarrow>
               if 0 <s shapeIndex then
                 (case write_position loader' section atomX atomY atomZ 0 of
                    Inl err \<Rightarrow> (Inl err, loader')
                  | Inr loader'' \<Rightarrow> (Inr True, loader''))
               else (Inr False, loader')))"

definition GetShape ::
  "codec \<Rightarrow> 64 word \<Rightarrow> gint \<Rightarrow> gint \<Rightarrow> gint \<Rightarrow> Loader \<Rightarrow> (error + gint \<times> bool) \<times> Loader" where
  "GetShape cd now worldX worldY worldZ loader =
     (case getPosInSection cd now worldX worldY worldZ loader of
        (Inl err, loader') \<Rightarrow> (Inl err, loader')
      | (Inr (section, atomX, atomY, atomZ), loader') \<Rightarrow>
          (case read_position loader' section atomX atomY atomZ of
             Inl err \<Rightarrow> (Inl err, loader')
           | Inr shapeIndex \<Rightarrow>
               if shapeIndex = 0 then (Inr (0, False), loader')
               else (Inr (shapeIndex - 1, True), loader')))"

definition GetSectionPos :: "Loader \<Rightarrow> gint \<times> gint" where
  "GetSectionPos loader =
     (go_div (loader_X loader) SECTION_SIZE, go_div (loader_Y loader) SECTION_SIZE)"

section \<open>Notions used to state the properties of the section store\<close>

text \<open>The sections resident in the cache, in slot order, and the key of a section.\<close>

definition resident :: "Section option list \<Rightarrow> Section list" where
  "resident cs = List.map_filter id cs"

definition section_key :: "Section \<Rightarrow> gint \<times> gint" where
  "section_key s = (sec_X s, sec_Y s)"

text \<open>A query for section \<open>(sx, sy)\<close> hits the cache when some slot holds it.\<close>

definition is_resident :: "Loader \<Rightarrow> gint \<Rightarrow> gint \<Rightarrow> bool" where
  "is_resident loader sx sy = list_ex (\<lambda>c. slot_holds c sx sy) (cache (sectionCache loader))"

text \<open>The slot with the oldest time stamp, the first one among equals.\<close>

definition oldest_slot :: "64 word list \<Rightarrow> nat option" where
  "oldest_slot ts =
     List.find (\<lambda>i. list_all (\<lambda>j. sint (ts ! i) \<le> sint (ts ! j)) [0..<length ts])
       [0..<length ts]"

definition first_min :: "64 word list \<Rightarrow> nat \<Rightarrow> nat \<Rightarrow> bool" where
  "first_min ts m k \<longleftrightarrow>
     k < m \<and> (\<forall>j<m. sint (ts ! k) \<le> sint (ts ! j)) \<and> (\<forall>j<k. sint (ts ! k) < sint (ts ! j))"

text \<open>The part of \<open>getSection\<close> that writes the old section back: the observer is told,
  then the section is saved.\<close>

definition evict :: "codec \<Rightarrow> Loader \<Rightarrow> nat \<Rightarrow> error option \<times> Loader" where
  "evict cd l k =
     (case cache (sectionCache l) ! k of
        None \<Rightarrow> (None, l)
      | Some oldSection \<Rightarrow>
          save cd oldSection
            (l\<lparr>observer := observer l @ [SectionSave (sec_X oldSection) (sec_Y oldSection)]\<rparr>))"

text \<open>A small codec for the examples below. It keeps one cell of each array in one byte,
  so it gives an array back when the array holds the same value below 256 in every
  cell.\<close>

definition sample_codec :: codec where
  "sample_codec =
     \<lparr>gzip_write = id, gzip_read = Some,
      gob_enc_position = (\<lambda>p. Some [ucast (Shape (p 0 0 0))]),
      gob_dec_position = (\<lambda>bs. case bs of [] \<Rightarrow> None
                               | b # rest \<Rightarrow> Some (\<lambda>_ _ _. \<lparr>Shape = ucast b\<rparr>, rest)),
      gob_enc_edges = (\<lambda>e. Some [ucast (Shape (e 0 0))]),
      gob_dec_edges = (\<lambda>bs. case bs of [] \<Rightarrow> None
                            | b # rest \<Rightarrow> Some (\<lambda>_ _. \<lparr>Shape = ucast b\<rparr>, rest))\<rparr>"

text \<open>A loader that has been asked for the sections \<open>(0,0)\<close>, \<open>(1,0)\<close>, \<open>(2,0)\<close> and
  \<open>(3,0)\<close> at the times 1 to 4: all four slots are taken.\<close>

definition full_loader :: Loader where
  "full_loader =
     snd (getSection sample_codec 4 3 0
       (snd (getSection sample_codec 3 2 0
         (snd (getSection sample_codec 2 1 0
           (snd (getSection sample_codec 1 0 0 (NewLoader ''user'' ''game''))))))))"

text \<open>Sequences of operations on the store, each with the clock reading at its call.
  A sequence stops at the first operation that ends the process.\<close>

datatype store_op =
    GetShapeOp gint gint gint
  | SetShapeOp gint gint gint gint
  | EraseShapeOp gint gint gint
  | GetEdgeOp gint gint
  | SetEdgeOp gint gint gint
  | ClearEdgeOp gint gint

text \<open>One operation on the store, at the clock reading \<open>now\<close>: whether it ended the
  process (a panic or \<open>log.Fatal\<close>), and the loader it leaves.\<close>

fun apply_op :: "codec \<Rightarrow> 64 word \<Rightarrow> store_op \<Rightarrow> Loader \<Rightarrow> bool \<times> Loader" where
  "apply_op cd now (GetShapeOp x y z) l = (let (r, l') = GetShape cd now x y z l in (isl r, l'))"
| "apply_op cd now (SetShapeOp x y z i) l = (let (r, l') = SetShape cd now x y z i l in (isl r, l'))"
| "apply_op cd now (EraseShapeOp x y z) l = (let (r, l') = EraseShape cd now x y z l in (isl r, l'))"
| "apply_op cd now (GetEdgeOp x y) l = (let (r, l') = GetEdge cd now x y l in (isl r, l'))"
| "apply_op cd now (SetEdgeOp x y i) l = (let (r, l') = SetEdge cd now x y i l in (isl r, l'))"
| "apply_op cd now (ClearEdgeOp x y) l = (let (r, l') = ClearEdge cd now x y l in (isl r, l'))"

fun run_ops :: "codec \<Rightarrow> (64 word \<times> store_op) list \<Rightarrow> Loader \<Rightarrow> Loader" where
  "run_ops cd [] l = l"
| "run_ops cd ((now, opn) # rest) l =
     (case apply_op cd now opn l of
        (True, l') \<Rightarrow> l'
      | (False, l') \<Rightarrow> run_ops cd rest l')"

definition cache_ok :: "Loader \<Rightarrow> bool" where
  "cache_ok l \<longleftrightarrow>
     length (cache (sectionCache l)) = 4 \<and> length (times (sectionCache l)) = 4
     \<and> distinct (map section_key (resident (cache (sectionCache l))))"

text \<open>Six operations that touch five sections.\<close>

definition five_sections :: "(64 word \<times> store_op) list" where
  "five_sections =
     [(1, SetShapeOp 0 0 0 7), (2, SetShapeOp 200 0 0 7), (3, GetShapeOp 400 0 0),
      (4, SetEdgeOp 600 0 3), (5, EraseShapeOp 800 0 0), (6, GetEdgeOp 0 0)]"

text \<open>The cell \<open>(x, y, z)\<close> of the world is resident and holds the value \<open>v\<close>: the scan of
  the cache finds the section of \<open>(x, y)\<close>, and that section has \<open>v\<close> at the local cell.\<close>

definition cell_at :: "Loader \<Rightarrow> gint \<Rightarrow> gint \<Rightarrow> gint \<Rightarrow> gint \<Rightarrow> bool" where
  "cell_at l x y z v \<longleftrightarrow>
     (\<exists>slot s.
        scan_cache (sectionCache l) (go_div x SECTION_SIZE) (go_div y SECTION_SIZE)
          [0..<length (cache (sectionCache l))] (-1) = Inl slot
        \<and> cache (sectionCache l) ! slot = Some s
        \<and> Shape (position s (go_mod x SECTION_SIZE) (go_mod y SECTION_SIZE) z) = v)"

text \<open>A section that \<open>sample_codec\<close> can carry.\<close>

definition sample_section :: Section where
  "sample_section =
     \<lparr>sec_X = 25, sec_Y = 26, position = (\<lambda>_ _ _. \<lparr>Shape = 42\<rparr>), edges = (\<lambda>_ _. \<lparr>Shape = 7\<rparr>)\<rparr>"

section \<open>Properties of the section store\<close>

subsection \<open>Division and remainder on non-negative coordinates\<close>

lemma sint_word_of_int_small:
  assumes "0 \<le> k" "k < 2 ^ 63"
  shows "sint (word_of_int k :: gint) = k"
  using assms by (simp add: sint_sbintrunc' signed_take_bit_int_eq_self)

lemma sint_nonneg_bound:
  assumes "0 \<le>s (x :: gint)"
  shows "0 \<le> sint x \<and> sint x < 2 ^ 63"
  using assms sint_lt [of x] by (simp add: word_sle_eq)

lemma go_div_nonneg:
  assumes "0 \<le>s x"
  shows "sint (go_div x SECTION_SIZE) = sint x div 200"
proof -
  from sint_nonneg_bound [OF assms] have b: "0 \<le> sint x" "sint x < 2 ^ 63" by simp_all
  have s: "sint SECTION_SIZE = 200" by (simp add: SECTION_SIZE_def)
  have "sint x sdiv 200 = sint x div 200"
    using b(1) by (simp add: signed_divide_int_def sgn_if)
  moreover have "0 \<le> sint x div 200" using b(1) by simp
  moreover have "sint x div 200 \<le> sint x" using b(1) by simp
  ultimately show ?thesis
    using b(2) by (simp add: go_div_def s sint_word_of_int_small)
qed

lemma go_mod_nonneg:
  assumes "0 \<le>s x"
  shows "sint (go_mod x SECTION_SIZE) = sint x mod 200"
proof -
  from sint_nonneg_bound [OF assms] have b: "0 \<le> sint x" "sint x < 2 ^ 63" by simp_all
  have s: "sint SECTION_SIZE = 200" by (simp add: SECTION_SIZE_def)
  have "sint x smod 200 = sint x mod 200"
    using b(1) by (simp add: smod_mod_positive)
  moreover have "0 \<le> sint x mod 200" by simp
  moreover have "sint x mod 200 < 200" by simp
  ultimately show ?thesis
    by (simp add: go_mod_def s sint_word_of_int_small)
qed

lemma go_mod_in_bounds:
  assumes "0 \<le>s x"
  shows "in_bounds (go_mod x SECTION_SIZE) SECTION_SIZE"
proof -
  have "sint (go_mod x SECTION_SIZE) = sint x mod 200" by (rule go_mod_nonneg [OF assms])
  moreover have "sint SECTION_SIZE = 200" by (simp add: SECTION_SIZE_def)
  ultimately show ?thesis
    by (simp add: in_bounds_def word_sle_eq word_sless_alt)
qed

subsection \<open>The scan of the cache\<close>

lemma resident_Nil [simp]: "resident [] = []"
  by (simp add: resident_def map_filter_simps)

lemma resident_Cons [simp]:
  "resident (c # cs) = (case c of None \<Rightarrow> resident cs | Some s \<Rightarrow> s # resident cs)"
  by (simp add: resident_def map_filter_simps split: option.splits)

lemma set_resident: "set (resident cs) = {s. Some s \<in> set cs}"
  by (induction cs) (auto split: option.splits)

lemma scan_cache_hit:
  "scan_cache sc sx sy is oldest = Inl i \<Longrightarrow> i \<in> set is \<and> slot_holds (cache sc ! i) sx sy"
  by (induction "is" arbitrary: oldest) (auto split: if_splits)

lemma scan_cache_miss:
  "scan_cache sc sx sy is oldest = Inr k \<Longrightarrow> \<forall>i \<in> set is. \<not> slot_holds (cache sc ! i) sx sy"
  by (induction "is" arbitrary: oldest) (auto split: if_splits)

lemma scan_cache_hit_iff:
  "isl (scan_cache sc sx sy is oldest) \<longleftrightarrow> (\<exists>i \<in> set is. slot_holds (cache sc ! i) sx sy)"
  by (induction "is" arbitrary: oldest) auto

lemma scan_cache_range:
  "scan_cache sc sx sy is oldest = Inr k \<Longrightarrow> k = oldest \<or> k \<in> int ` set is"
  by (induction "is" arbitrary: oldest) (auto split: if_splits)

lemma scan_cache_nonempty:
  "scan_cache sc sx sy is (-1) = Inr k \<Longrightarrow> is \<noteq> [] \<Longrightarrow> k \<in> int ` set is"
proof (cases "is")
  case Nil
  then show "is \<noteq> [] \<Longrightarrow> ?thesis" by simp
next
  case (Cons i rest)
  assume "scan_cache sc sx sy is (-1) = Inr k"
  with Cons have "scan_cache sc sx sy rest (int i) = Inr k"
    by (auto split: if_splits)
  from scan_cache_range [OF this] Cons show ?thesis by auto
qed

lemma first_min_step:
  assumes "first_min ts m k"
  shows "first_min ts (Suc m) (if ts ! m <s ts ! k then m else k)"
  using assms unfolding first_min_def word_sless_alt
  by (auto simp: less_Suc_eq)

lemma scan_cache_first_min:
  assumes "scan_cache sc sx sy [m..<n] (int k) = Inr r"
    and "first_min (times sc) m k" and "m \<le> n"
  shows "\<exists>k'. r = int k' \<and> first_min (times sc) n k'"
  using assms
proof (induction "n - m" arbitrary: m k)
  case 0
  then show ?case by auto
next
  case (Suc d)
  then have lt: "m < n" by simp
  then have upt: "[m..<n] = m # [Suc m..<n]" by (simp add: upt_conv_Cons)
  let ?k' = "if times sc ! m <s times sc ! k then m else k"
  from Suc.prems(1) have "scan_cache sc sx sy [Suc m..<n] (int ?k') = Inr r"
    unfolding upt by (auto split: if_splits)
  moreover have "first_min (times sc) (Suc m) ?k'"
    by (rule first_min_step [OF Suc.prems(2)])
  moreover have "d = n - Suc m" using Suc.hyps(2) by simp
  moreover have "Suc m \<le> n" using lt by simp
  ultimately show ?case using Suc.hyps(1) by blast
qed

lemma scan_cache_oldest:
  assumes "scan_cache sc sx sy [0..<n] (-1) = Inr r" and "0 < n"
  shows "\<exists>k. r = int k \<and> first_min (times sc) n k"
proof -
  from assms(2) have upt: "[0..<n] = 0 # [Suc 0..<n]" by (simp add: upt_conv_Cons)
  from assms(1) have "scan_cache sc sx sy [Suc 0..<n] (int 0) = Inr r"
    unfolding upt by (auto split: if_splits)
  moreover have "first_min (times sc) (Suc 0) 0" by (simp add: first_min_def)
  ultimately show ?thesis using scan_cache_first_min [of sc sx sy "Suc 0" n 0 r] assms(2)
    by simp
qed

lemma first_min_oldest_slot:
  assumes "first_min ts (length ts) k"
  shows "oldest_slot ts = Some k"
proof -
  let ?P = "\<lambda>i. list_all (\<lambda>j. sint (ts ! i) \<le> sint (ts ! j)) [0..<length ts]"
  from assms have k: "k < length ts" and le: "\<forall>j<length ts. sint (ts ! k) \<le> sint (ts ! j)"
    and lt: "\<forall>j<k. sint (ts ! k) < sint (ts ! j)" by (simp_all add: first_min_def)
  have "?P k" using le by (simp add: list_all_iff)
  moreover have "\<not> ?P j" if "j < k" for j
  proof
    assume "?P j"
    then have "sint (ts ! j) \<le> sint (ts ! k)" using k by (simp add: list_all_iff)
    with lt that show False by force
  qed
  ultimately show ?thesis
    unfolding oldest_slot_def find_Some_iff using k
    by (intro exI [of _ k]) simp
qed

subsection \<open>The paths through getSection\<close>

lemma save_only_disk: "\<exists>d. snd (save cd s l) = l\<lparr>disk := d\<rparr>"
  by (auto simp: save_def Let_def split: option.splits intro: exI [of _ "disk l"])

lemma save_fields [simp]:
  "sectionCache (snd (save cd s l)) = sectionCache l"
  "observer (snd (save cd s l)) = observer l"
  "denied (snd (save cd s l)) = denied l"
  "ioMode (snd (save cd s l)) = ioMode l"
  "userDir (snd (save cd s l)) = userDir l"
  "gameDir (snd (save cd s l)) = gameDir l"
  "loader_X (snd (save cd s l)) = loader_X l"
  "loader_Y (snd (save cd s l)) = loader_Y l"
  using save_only_disk [of cd s l] by auto

lemma load_key: "load cd sx sy l = Inr s \<Longrightarrow> sec_X s = sx \<and> sec_Y s = sy"
  by (auto simp: load_def Let_def split: option.splits list.splits if_splits)

lemma getSection_hit:
  assumes "scan_cache (sectionCache l) sx sy [0..<length (cache (sectionCache l))] (-1) = Inl i"
  shows "getSection cd now sx sy l =
           (Inr i, l\<lparr>sectionCache := (sectionCache l)\<lparr>times := (times (sectionCache l))[i := now]\<rparr>\<rparr>)"
  using assms by (simp add: getSection_def Let_def)

lemma getSection_miss:
  assumes "scan_cache (sectionCache l) sx sy [0..<length (cache (sectionCache l))] (-1) = Inr (int k)"
    and "k < length (cache (sectionCache l))"
  shows "getSection cd now sx sy l =
           (case fst (evict cd l k) of
              Some e \<Rightarrow> (Inl e, snd (evict cd l k))
            | None \<Rightarrow>
               (case load cd sx sy (snd (evict cd l k)) of
                  Inl e \<Rightarrow> (Inl e, snd (evict cd l k))
                | Inr section \<Rightarrow>
                    (Inr k, (snd (evict cd l k))
                       \<lparr>sectionCache := \<lparr>cache = (cache (sectionCache l))[k := Some section],
                                         times = (times (sectionCache l))[k := now]\<rparr>,
                        observer := observer (snd (evict cd l k)) @ [SectionLoad sx sy]\<rparr>)))"
  using assms
  by (simp add: getSection_def Let_def evict_def split: option.splits prod.splits sum.splits)

lemma evict_fields [simp]:
  "sectionCache (snd (evict cd l k)) = sectionCache l"
  "denied (snd (evict cd l k)) = denied l"
  "ioMode (snd (evict cd l k)) = ioMode l"
  by (simp_all add: evict_def split: option.splits)

lemma evict_observer:
  "observer (snd (evict cd l k)) = observer l @
     (case cache (sectionCache l) ! k of None \<Rightarrow> []
      | Some old \<Rightarrow> [SectionSave (sec_X old) (sec_Y old)])"
  by (simp add: evict_def split: option.splits)

lemma is_resident_iff:
  "is_resident l sx sy \<longleftrightarrow>
     isl (scan_cache (sectionCache l) sx sy [0..<length (cache (sectionCache l))] oldest)"
proof -
  have "(\<exists>c \<in> set (cache (sectionCache l)). slot_holds c sx sy) \<longleftrightarrow>
        (\<exists>i \<in> set [0..<length (cache (sectionCache l))]. slot_holds (cache (sectionCache l) ! i) sx sy)"
  proof -
    have "(\<exists>c \<in> set xs. P c) \<longleftrightarrow> (\<exists>i<length xs. P (xs ! i))" for xs :: "Section option list" and P
      by (metis in_set_conv_nth)
    moreover have "(\<exists>i \<in> set [0..<n]. Q i) \<longleftrightarrow> (\<exists>i<n. Q i)" for n :: nat and Q
      by auto
    ultimately show ?thesis by simp
  qed
  then show ?thesis
    by (simp add: is_resident_def list_ex_iff scan_cache_hit_iff)
qed

lemma getSection_Inr_cases:
  assumes "fst (getSection cd now sx sy l) = Inr i"
  obtains (hit)
      "scan_cache (sectionCache l) sx sy [0..<length (cache (sectionCache l))] (-1) = Inl i"
      "snd (getSection cd now sx sy l) =
         l\<lparr>sectionCache := (sectionCache l)\<lparr>times := (times (sectionCache l))[i := now]\<rparr>\<rparr>"
  | (miss) sec where
      "scan_cache (sectionCache l) sx sy [0..<length (cache (sectionCache l))] (-1) = Inr (int i)"
      "i < length (cache (sectionCache l))"
      "fst (evict cd l i) = None"
      "load cd sx sy (snd (evict cd l i)) = Inr sec"
      "snd (getSection cd now sx sy l) =
         (snd (evict cd l i))
           \<lparr>sectionCache := \<lparr>cache = (cache (sectionCache l))[i := Some sec],
                             times = (times (sectionCache l))[i := now]\<rparr>,
            observer := observer (snd (evict cd l i)) @ [SectionLoad sx sy]\<rparr>"
proof (cases "scan_cache (sectionCache l) sx sy [0..<length (cache (sectionCache l))] (-1)")
  case (Inl j)
  with assms have "j = i" by (simp add: getSection_hit [OF Inl])
  with Inl show ?thesis using hit by (simp add: getSection_hit)
next
  case (Inr r)
  show ?thesis
  proof (cases "r < 0 \<or> int (length (cache (sectionCache l))) \<le> r")
    case True
    with Inr assms show ?thesis by (simp add: getSection_def Let_def)
  next
    case False
    then obtain k where k: "r = int k" "k < length (cache (sectionCache l))"
      by (metis nat_int not_le of_nat_less_iff zero_le_imp_eq_int linorder_not_less)
    with Inr have scan: "scan_cache (sectionCache l) sx sy
        [0..<length (cache (sectionCache l))] (-1) = Inr (int k)" by simp
    note eq = getSection_miss [OF scan k(2), of cd now]
    from assms have "fst (evict cd l k) = None \<and> (\<exists>s. load cd sx sy (snd (evict cd l k)) = Inr s) \<and> k = i"
      unfolding eq by (auto split: option.splits sum.splits)
    then obtain s where s: "fst (evict cd l i) = None" "load cd sx sy (snd (evict cd l i)) = Inr s" "k = i"
      by auto
    show ?thesis
      using miss [of s] scan k(2) s eq by simp
  qed
qed

lemma getSection_slot:
  assumes "fst (getSection cd now sx sy l) = Inr i"
  shows "i < length (cache (sectionCache (snd (getSection cd now sx sy l))))
         \<and> slot_holds (cache (sectionCache (snd (getSection cd now sx sy l))) ! i) sx sy"
  using assms
proof (cases rule: getSection_Inr_cases)
  case hit
  from scan_cache_hit [OF hit(1)] show ?thesis by (simp add: hit(2))
next
  case (miss sec)
  from load_key [OF miss(4)] miss(2) show ?thesis
    by (simp add: miss(5) slot_holds_def)
qed

subsection \<open>Section key and local cell\<close>

text \<open>
  Claim C5. For non-negative world coordinates \<open>x\<close> and \<open>y\<close>, the section that
  \<open>getPosInSection\<close> hands back has the key \<open>(x div 200, y div 200)\<close>, rounded down, and
  the local cell is \<open>(x mod 200, y mod 200)\<close>, both indices between 0 and 199.
\<close>

theorem getPosInSection_addressing:
  assumes "0 \<le>s worldX" and "0 \<le>s worldY"
    and "fst (getPosInSection cd now worldX worldY worldZ loader) = Inr (slot, atomX, atomY, atomZ)"
  shows "(\<exists>s. cache (sectionCache (snd (getPosInSection cd now worldX worldY worldZ loader))) ! slot = Some s
              \<and> sint (sec_X s) = sint worldX div 200 \<and> sint (sec_Y s) = sint worldY div 200)
         \<and> sint atomX = sint worldX mod 200 \<and> sint atomY = sint worldY mod 200
         \<and> 0 \<le> sint atomX \<and> sint atomX < 200 \<and> 0 \<le> sint atomY \<and> sint atomY < 200"
proof -
  let ?sx = "go_div worldX SECTION_SIZE" and ?sy = "go_div worldY SECTION_SIZE"
  let ?g = "getSection cd now ?sx ?sy loader"
  from assms(3) have g: "fst ?g = Inr slot"
    and l': "snd (getPosInSection cd now worldX worldY worldZ loader) = snd ?g"
    and a: "atomX = go_mod worldX SECTION_SIZE" "atomY = go_mod worldY SECTION_SIZE"
    by (auto simp: getPosInSection_def Let_def split: prod.splits sum.splits)
  from getSection_slot [OF g] obtain s where
    s: "cache (sectionCache (snd ?g)) ! slot = Some s" "sec_X s = ?sx" "sec_Y s = ?sy"
    by (auto simp: slot_holds_def split: option.splits)
  have "sint (sec_X s) = sint worldX div 200" "sint (sec_Y s) = sint worldY div 200"
    using s(2,3) go_div_nonneg [OF assms(1)] go_div_nonneg [OF assms(2)] by simp_all
  moreover have "sint atomX = sint worldX mod 200" "sint atomY = sint worldY mod 200"
    using a go_mod_nonneg [OF assms(1)] go_mod_nonneg [OF assms(2)] by simp_all
  ultimately show ?thesis using s(1) l' by simp
qed

theorem getPosInSection_addressing_witness:
  "0 \<le>s (5000 :: gint) \<and> 0 \<le>s (5010 :: gint)
   \<and> fst (getPosInSection sample_codec 7 5000 5010 3 (NewLoader ''user'' ''game'')) = Inr (0, 0, 10, 3)
   \<and> (\<exists>s. cache (sectionCache (snd (getPosInSection sample_codec 7 5000 5010 3
                 (NewLoader ''user'' ''game'')))) ! 0 = Some s
             \<and> sint (sec_X s) = 25 \<and> sint (sec_Y s) = 25)"
proof -
  have h1: "0 \<le>s (5000 :: gint)" and h2: "0 \<le>s (5010 :: gint)" by code_simp+
  have h3: "fst (getPosInSection sample_codec 7 5000 5010 3 (NewLoader ''user'' ''game''))
              = Inr (0, 0, 10, 3)"
    by code_simp
  from getPosInSection_addressing [OF h1 h2 h3] h1 h2 h3 show ?thesis by simp
qed

subsection \<open>Notifications of the observer\<close>

text \<open>
  Claim C3. What one call of \<open>getSection\<close> tells the observer: nothing when the section
  is resident; otherwise, when the slot with the oldest time stamp holds a section, one
  \<open>SectionSave\<close> with that section's coordinates, and after it, when the call succeeds,
  the \<open>SectionLoad\<close> of the section asked for.
\<close>

theorem getSection_observer:
  assumes "length (cache (sectionCache loader)) = 4"
    and "length (times (sectionCache loader)) = 4"
  shows "observer (snd (getSection cd now sx sy loader)) =
     observer loader @
       (if is_resident loader sx sy then []
        else (case oldest_slot (times (sectionCache loader)) of
                None \<Rightarrow> []
              | Some k \<Rightarrow>
                  (case cache (sectionCache loader) ! k of
                     None \<Rightarrow> []
                   | Some old \<Rightarrow> [SectionSave (sec_X old) (sec_Y old)]))
             @ (if isl (fst (getSection cd now sx sy loader)) then []
                else [SectionLoad sx sy]))"
proof (cases "scan_cache (sectionCache loader) sx sy [0..<length (cache (sectionCache loader))] (-1)")
  case (Inl i)
  then have "is_resident loader sx sy"
    using is_resident_iff [of loader sx sy "-1"] by simp
  then show ?thesis by (simp add: getSection_hit [OF Inl])
next
  case (Inr r)
  then have nres: "\<not> is_resident loader sx sy"
    using is_resident_iff [of loader sx sy "-1"] by simp
  from scan_cache_oldest [OF Inr] assms(1)
  obtain k where k: "r = int k" "first_min (times (sectionCache loader)) 4 k" by auto
  then have k4: "k < length (cache (sectionCache loader))"
    by (simp add: first_min_def assms(1))
  from k(2) assms(2) have old: "oldest_slot (times (sectionCache loader)) = Some k"
    using first_min_oldest_slot [of "times (sectionCache loader)" k] by simp
  from Inr k(1) have scan: "scan_cache (sectionCache loader) sx sy
      [0..<length (cache (sectionCache loader))] (-1) = Inr (int k)" by simp
  show ?thesis
    unfolding getSection_miss [OF scan k4, of cd now]
    by (simp add: nres old evict_observer split: option.splits sum.splits)
qed

theorem getSection_observer_witness:
  "length (cache (sectionCache full_loader)) = 4
   \<and> length (times (sectionCache full_loader)) = 4
   \<and> observer (snd (getSection sample_codec 5 4 0 full_loader)) =
       [SectionLoad 0 0, SectionLoad 1 0, SectionLoad 2 0, SectionLoad 3 0,
        SectionSave 0 0, SectionLoad 4 0]
   \<and> observer (snd (getSection sample_codec 5 2 0 full_loader)) =
       [SectionLoad 0 0, SectionLoad 1 0, SectionLoad 2 0, SectionLoad 3 0]"
proof -
  have h1: "length (cache (sectionCache full_loader)) = 4" by code_simp
  have h2: "length (times (sectionCache full_loader)) = 4" by code_simp
  have miss: "observer full_loader @
       (if is_resident full_loader 4 0 then []
        else (case oldest_slot (times (sectionCache full_loader)) of
                None \<Rightarrow> []
              | Some k \<Rightarrow>
                  (case cache (sectionCache full_loader) ! k of
                     None \<Rightarrow> []
                   | Some old \<Rightarrow> [SectionSave (sec_X old) (sec_Y old)]))
             @ (if isl (fst (getSection sample_codec 5 4 0 full_loader)) then []
                else [SectionLoad 4 0]))
      = [SectionLoad 0 0, SectionLoad 1 0, SectionLoad 2 0, SectionLoad 3 0,
         SectionSave 0 0, SectionLoad 4 0]"
    by code_simp
  have hit: "observer full_loader @
       (if is_resident full_loader 2 0 then []
        else (case oldest_slot (times (sectionCache full_loader)) of
                None \<Rightarrow> []
              | Some k \<Rightarrow>
                  (case cache (sectionCache full_loader) ! k of
                     None \<Rightarrow> []
                   | Some old \<Rightarrow> [SectionSave (sec_X old) (sec_Y old)]))
             @ (if isl (fst (getSection sample_codec 5 2 0 full_loader)) then []
                else [SectionLoad 2 0]))
      = [SectionLoad 0 0, SectionLoad 1 0, SectionLoad 2 0, SectionLoad 3 0]"
    by code_simp
  note a = trans [OF getSection_observer [OF h1 h2, of sample_codec 5 4 0] miss]
  note b = trans [OF getSection_observer [OF h1 h2, of sample_codec 5 2 0] hit]
  from h1 h2 a b show ?thesis by (intro conjI)
qed

subsection \<open>Moving the focal point\<close>

text \<open>
  Claim C7, as the code has it. \<open>MoveTo x y\<close> returns true, and moves the focal point to
  \<open>(x, y)\<close>, exactly when \<open>x\<close> and \<open>y\<close> are both non-negative and \<open>(x, y)\<close> differs from the
  focal point; otherwise the loader is left as it was. In both cases the section cache,
  the files and the observer are untouched: nothing is reloaded.
\<close>

theorem MoveTo_guarded:
  "fst (MoveTo x y loader)
     = (0 \<le>s x \<and> 0 \<le>s y \<and> (loader_X loader, loader_Y loader) \<noteq> (x, y))
   \<and> snd (MoveTo x y loader)
     = (if fst (MoveTo x y loader) then loader\<lparr>loader_X := x, loader_Y := y\<rparr> else loader)
   \<and> sectionCache (snd (MoveTo x y loader)) = sectionCache loader
   \<and> disk (snd (MoveTo x y loader)) = disk loader
   \<and> observer (snd (MoveTo x y loader)) = observer loader"
  by (simp add: MoveTo_def)

theorem MoveTo_guarded_witness:
  "fst (MoveTo 10 20 (NewLoader ''user'' ''game''))
   \<and> loader_X (snd (MoveTo 10 20 (NewLoader ''user'' ''game''))) = 10
   \<and> loader_Y (snd (MoveTo 10 20 (NewLoader ''user'' ''game''))) = 20
   \<and> fst (MoveTo 5000 5000 (NewLoader ''user'' ''game'')) = False"
  using MoveTo_guarded [of 10 20 "NewLoader ''user'' ''game''"]
    MoveTo_guarded [of 5000 5000 "NewLoader ''user'' ''game''"]
  by (simp add: NewLoader_def word_sle_eq)

text \<open>The claim without the guard fails: \<open>(-1, 0)\<close> differs from the focal point
  \<open>(5000, 5000)\<close> of a new loader, and \<open>MoveTo (-1) 0\<close> returns false and moves nothing.\<close>

theorem MoveTo_negative_counterexample:
  "(loader_X (NewLoader ''user'' ''game''), loader_Y (NewLoader ''user'' ''game'')) \<noteq> (-1, 0)
   \<and> fst (MoveTo (-1) 0 (NewLoader ''user'' ''game'')) = False
   \<and> snd (MoveTo (-1) 0 (NewLoader ''user'' ''game'')) = NewLoader ''user'' ''game''"
  by (simp add: MoveTo_def NewLoader_def word_sle_eq)

subsection \<open>The cache holds each section at most once\<close>

lemma set_resident_update:
  "set (resident (cs[k := Some s])) \<subseteq> insert s (set (resident cs))"
  by (induction cs arbitrary: k) (auto split: option.splits nat.splits)

lemma distinct_update_new:
  assumes "distinct (map section_key (resident cs))"
    and "\<forall>c \<in> set cs. \<not> slot_holds c (sec_X s) (sec_Y s)"
  shows "distinct (map section_key (resident (cs[k := Some s])))"
  using assms
proof (induction cs arbitrary: k)
  case Nil
  then show ?case by simp
next
  case (Cons c cs)
  have fresh: "section_key s \<notin> section_key ` set (resident cs)"
  proof
    assume "section_key s \<in> section_key ` set (resident cs)"
    then obtain t where t: "Some t \<in> set cs" "section_key t = section_key s"
      by (auto simp: set_resident)
    then have "slot_holds (Some t) (sec_X s) (sec_Y s)"
      by (simp add: slot_holds_def section_key_def)
    with Cons.prems(2) t(1) show False by auto
  qed
  show ?case
  proof (cases k)
    case 0
    with Cons.prems(1) fresh show ?thesis by (auto split: option.splits)
  next
    case (Suc k')
    have ih: "distinct (map section_key (resident (cs[k' := Some s])))"
      using Cons.IH [of k'] Cons.prems by (auto split: option.splits)
    show ?thesis
    proof (cases c)
      case None
      with Suc ih show ?thesis by simp
    next
      case (Some t)
      have "section_key t \<noteq> section_key s"
        using Cons.prems(2) Some by (auto simp: slot_holds_def section_key_def)
      moreover have "section_key t \<notin> section_key ` set (resident cs)"
        using Cons.prems(1) Some by simp
      ultimately have "section_key t \<notin> section_key ` set (resident (cs[k' := Some s]))"
        using set_resident_update [of cs k' s] by auto
      with Suc Some ih show ?thesis by simp
    qed
  qed
qed

lemma resident_update_same_key:
  assumes "cs ! i = Some s" and "section_key s' = section_key s"
  shows "map section_key (resident (cs[i := Some s'])) = map section_key (resident cs)"
  using assms
  by (induction cs arbitrary: i) (auto split: option.splits nat.splits)
lemma length_resident: "length (resident cs) \<le> length cs"
  by (induction cs) (auto split: option.splits)

lemma getSection_Inl_cache:
  assumes "isl (fst (getSection cd now sx sy l))"
  shows "sectionCache (snd (getSection cd now sx sy l)) = sectionCache l"
proof (cases "scan_cache (sectionCache l) sx sy [0..<length (cache (sectionCache l))] (-1)")
  case (Inl i)
  with assms show ?thesis by (simp add: getSection_hit [OF Inl])
next
  case (Inr r)
  show ?thesis
  proof (cases "r < 0 \<or> int (length (cache (sectionCache l))) \<le> r")
    case True
    with Inr show ?thesis by (simp add: getSection_def Let_def)
  next
    case False
    then obtain k where k: "r = int k" "k < length (cache (sectionCache l))"
      by (metis nat_int not_le of_nat_less_iff zero_le_imp_eq_int linorder_not_less)
    with Inr have scan: "scan_cache (sectionCache l) sx sy
        [0..<length (cache (sectionCache l))] (-1) = Inr (int k)" by simp
    from assms show ?thesis
      unfolding getSection_miss [OF scan k(2), of cd now]
      by (auto split: option.splits sum.splits)
  qed
qed

lemma getSection_cache_ok:
  assumes "cache_ok l"
  shows "cache_ok (snd (getSection cd now sx sy l))"
proof (cases "fst (getSection cd now sx sy l)")
  case (Inl e)
  then have "sectionCache (snd (getSection cd now sx sy l)) = sectionCache l"
    by (simp add: getSection_Inl_cache)
  with assms show ?thesis by (simp add: cache_ok_def)
next
  case (Inr i)
  then show ?thesis
  proof (cases rule: getSection_Inr_cases)
    case hit
    with assms show ?thesis by (simp add: cache_ok_def)
  next
    case (miss sec)
    from scan_cache_miss [OF miss(1)]
    have "\<forall>c \<in> set (cache (sectionCache l)). \<not> slot_holds c sx sy"
      by (metis in_set_conv_nth atLeastLessThan_iff set_upt zero_le)
    with load_key [OF miss(4)]
    have "\<forall>c \<in> set (cache (sectionCache l)). \<not> slot_holds c (sec_X sec) (sec_Y sec)" by simp
    with assms have "distinct (map section_key (resident ((cache (sectionCache l))[i := Some sec])))"
      by (simp add: cache_ok_def distinct_update_new)
    with assms show ?thesis by (simp add: cache_ok_def miss(5))
  qed
qed

lemma getPosInSection_snd:
  "snd (getPosInSection cd now x y z l)
     = snd (getSection cd now (go_div x SECTION_SIZE) (go_div y SECTION_SIZE) l)"
  by (simp add: getPosInSection_def Let_def split: prod.splits sum.splits)

lemma getPosInSection_cache_ok:
  "cache_ok l \<Longrightarrow> cache_ok (snd (getPosInSection cd now x y z l))"
  by (simp add: getPosInSection_snd getSection_cache_ok)

lemma write_position_cache_ok:
  assumes "write_position l i ax ay az v = Inr l'" and "cache_ok l"
  shows "cache_ok l'"
  using assms
  by (auto simp: write_position_def Let_def cache_ok_def section_key_def
      resident_update_same_key split: option.splits if_splits)

lemma write_edge_cache_ok:
  assumes "write_edge l i ax ay v = Inr l'" and "cache_ok l"
  shows "cache_ok l'"
  using assms
  by (auto simp: write_edge_def Let_def cache_ok_def section_key_def
      resident_update_same_key split: option.splits if_splits)

lemma apply_op_cache_ok:
  assumes "cache_ok l"
  shows "cache_ok (snd (apply_op cd now opn l))"
proof -
  note p = getPosInSection_cache_ok [OF assms, of cd now]
  show ?thesis
  proof (cases opn)
    case (GetShapeOp x y z)
    with p [of x y z] show ?thesis
      by (auto simp: GetShape_def split: prod.splits sum.splits if_splits)
  next
    case (SetShapeOp x y z i)
    with p [of x y z] show ?thesis
      by (auto simp: SetShape_def split: prod.splits sum.splits if_splits
          dest: write_position_cache_ok)
  next
    case (EraseShapeOp x y z)
    with p [of x y z] show ?thesis
      by (auto simp: EraseShape_def split: prod.splits sum.splits if_splits
          dest: write_position_cache_ok)
  next
    case (GetEdgeOp x y)
    with p [of x y 0] show ?thesis
      by (auto simp: GetEdge_def split: prod.splits sum.splits if_splits)
  next
    case (SetEdgeOp x y i)
    with p [of x y 0] show ?thesis
      by (auto simp: SetEdge_def split: prod.splits sum.splits if_splits
          dest: write_edge_cache_ok)
  next
    case (ClearEdgeOp x y)
    with p [of x y 0] show ?thesis
      by (auto simp: ClearEdge_def split: prod.splits sum.splits if_splits
          dest: write_edge_cache_ok)
  qed
qed

lemma run_ops_cache_ok:
  "cache_ok l \<Longrightarrow> cache_ok (run_ops cd ops l)"
proof (induction ops arbitrary: l)
  case Nil
  then show ?case by simp
next
  case (Cons a ops)
  obtain now opn where a: "a = (now, opn)" by (cases a)
  from apply_op_cache_ok [OF Cons.prems, of cd now opn] Cons.IH
  show ?case by (auto simp: a split: prod.splits bool.splits)
qed

lemma NewLoader_cache_ok:
  "cache_ok ((NewLoader ud gd)\<lparr>ioMode := m, disk := d, denied := dn\<rparr>)"
  by (simp add: cache_ok_def NewLoader_def NewSectionCache_def numeral_eq_Suc)

text \<open>
  Claim C2. Whatever sequence of shape and edge operations a new loader runs, on
  whatever files, at most four sections are resident afterwards, and no two of them
  have the same key \<open>(sec_X, sec_Y)\<close>.
\<close>

theorem resident_sections_bounded_distinct:
  "length (resident (cache (sectionCache
      (run_ops cd ops ((NewLoader ud gd)\<lparr>ioMode := m, disk := d, denied := dn\<rparr>))))) \<le> 4
   \<and> distinct (map section_key (resident (cache (sectionCache
      (run_ops cd ops ((NewLoader ud gd)\<lparr>ioMode := m, disk := d, denied := dn\<rparr>))))))"
proof -
  let ?l = "run_ops cd ops ((NewLoader ud gd)\<lparr>ioMode := m, disk := d, denied := dn\<rparr>)"
  have ok: "cache_ok ?l" by (rule run_ops_cache_ok [OF NewLoader_cache_ok])
  then have "length (cache (sectionCache ?l)) = 4" by (simp add: cache_ok_def)
  with length_resident [of "cache (sectionCache ?l)"] ok show ?thesis
    by (simp add: cache_ok_def)
qed

theorem resident_sections_bounded_distinct_witness:
  "map section_key (resident (cache (sectionCache
      (run_ops sample_codec five_sections
        ((NewLoader ''user'' ''game'')\<lparr>ioMode := EDITOR_MODE, disk := Map.empty, denied := {}\<rparr>)))))
    = [(4, 0), (0, 0), (2, 0), (3, 0)]
   \<and> distinct (map section_key (resident (cache (sectionCache
      (run_ops sample_codec five_sections
        ((NewLoader ''user'' ''game'')\<lparr>ioMode := EDITOR_MODE, disk := Map.empty, denied := {}\<rparr>))))))"
proof -
  have "map section_key (resident (cache (sectionCache
      (run_ops sample_codec five_sections
        ((NewLoader ''user'' ''game'')\<lparr>ioMode := EDITOR_MODE, disk := Map.empty, denied := {}\<rparr>)))))
    = [(4, 0), (0, 0), (2, 0), (3, 0)]"
    by code_simp
  with resident_sections_bounded_distinct [where cd = sample_codec and ops = five_sections
      and ud = "''user''" and gd = "''game''" and m = EDITOR_MODE and d = Map.empty and dn = "{}"]
  show ?thesis by simp
qed

subsection \<open>Setting, reading and erasing a shape\<close>

lemma scan_cache_Inl_cong:
  assumes "scan_cache sc sx sy is oldest = Inl i"
    and "\<forall>j \<in> set is. slot_holds (cache sc' ! j) sx sy = slot_holds (cache sc ! j) sx sy"
  shows "scan_cache sc' sx sy is oldest' = Inl i"
  using assms
  by (induction "is" arbitrary: oldest oldest') (auto split: if_splits)

lemma scan_cache_find:
  assumes "slot_holds (cache sc ! i) sx sy" and "i < n" and "m \<le> i"
    and "\<forall>j<i. \<not> slot_holds (cache sc ! j) sx sy"
  shows "scan_cache sc sx sy [m..<n] oldest = Inl i"
  using assms
proof (induction "i - m" arbitrary: m oldest)
  case 0
  then have "m = i" by simp
  with 0 show ?case by (simp add: upt_conv_Cons)
next
  case (Suc d)
  then have "m < i" by simp
  with Suc.prems have "[m..<n] = m # [Suc m..<n]" "\<not> slot_holds (cache sc ! m) sx sy"
    by (simp_all add: upt_conv_Cons)
  moreover have "scan_cache sc sx sy [Suc m..<n] oldest' = Inl i" for oldest'
    using Suc.hyps(1) [of "Suc m"] Suc.hyps(2) Suc.prems \<open>m < i\<close> by simp
  ultimately show ?case by simp
qed

lemma getSection_rescan:
  assumes "fst (getSection cd now sx sy l) = Inr i"
  shows "scan_cache (sectionCache (snd (getSection cd now sx sy l))) sx sy
           [0..<length (cache (sectionCache (snd (getSection cd now sx sy l))))] oldest = Inl i"
  using assms
proof (cases rule: getSection_Inr_cases)
  case hit
  from scan_cache_Inl_cong [OF hit(1), of _ oldest] show ?thesis by (simp add: hit(2))
next
  case (miss sec)
  let ?sc' = "sectionCache (snd (getSection cd now sx sy l))"
  have c: "cache ?sc' = (cache (sectionCache l))[i := Some sec]" by (simp add: miss(5))
  from load_key [OF miss(4)] miss(2) have "slot_holds (cache ?sc' ! i) sx sy"
    by (simp add: c slot_holds_def)
  moreover have "\<forall>j<i. \<not> slot_holds (cache ?sc' ! j) sx sy"
    using scan_cache_miss [OF miss(1)] miss(2) by (simp add: c)
  moreover have "i < length (cache ?sc')" using miss(2) by (simp add: c)
  ultimately show ?thesis using scan_cache_find [of ?sc' i sx sy _ 0 oldest] by simp
qed

lemma cell_at_getPosInSection:
  assumes "cell_at l x y z v"
  shows "\<exists>slot s. getPosInSection cd now x y z l =
            (Inr (slot, go_mod x SECTION_SIZE, go_mod y SECTION_SIZE, z),
             l\<lparr>sectionCache := (sectionCache l)\<lparr>times := (times (sectionCache l))[slot := now]\<rparr>\<rparr>)
          \<and> slot < length (cache (sectionCache l))
          \<and> cache (sectionCache l) ! slot = Some s
          \<and> Shape (position s (go_mod x SECTION_SIZE) (go_mod y SECTION_SIZE) z) = v
          \<and> scan_cache (sectionCache l) (go_div x SECTION_SIZE) (go_div y SECTION_SIZE)
               [0..<length (cache (sectionCache l))] (-1) = Inl slot"
proof -
  from assms obtain slot s where
    h: "scan_cache (sectionCache l) (go_div x SECTION_SIZE) (go_div y SECTION_SIZE)
          [0..<length (cache (sectionCache l))] (-1) = Inl slot"
       "cache (sectionCache l) ! slot = Some s"
       "Shape (position s (go_mod x SECTION_SIZE) (go_mod y SECTION_SIZE) z) = v"
    by (auto simp: cell_at_def)
  from scan_cache_hit [OF h(1)] have "slot < length (cache (sectionCache l))" by simp
  with h show ?thesis
    by (simp add: getPosInSection_def Let_def getSection_hit [OF h(1)])
qed

lemma cell_at_times:
  "cell_at (l\<lparr>sectionCache := (sectionCache l)\<lparr>times := ts\<rparr>\<rparr>) x y z v = cell_at l x y z v"
proof -
  have "scan_cache (sectionCache l\<lparr>times := ts\<rparr>) sx sy is o1 = Inl i
        \<longleftrightarrow> scan_cache (sectionCache l) sx sy is o1 = Inl i" for sx sy "is" o1 i
    using scan_cache_Inl_cong [of "sectionCache l\<lparr>times := ts\<rparr>" sx sy "is" o1 i "sectionCache l" o1]
      scan_cache_Inl_cong [of "sectionCache l" sx sy "is" o1 i "sectionCache l\<lparr>times := ts\<rparr>" o1]
    by auto
  then show ?thesis by (simp add: cell_at_def)
qed


lemma write_position_cell:
  assumes "scan_cache (sectionCache l) sx sy [0..<length (cache (sectionCache l))] (-1) = Inl slot"
    and "write_position l slot ax ay az v' = Inr l'"
  shows "scan_cache (sectionCache l') sx sy [0..<length (cache (sectionCache l'))] (-1) = Inl slot
         \<and> (\<exists>s'. cache (sectionCache l') ! slot = Some s' \<and> Shape (position s' ax ay az) = v')"
proof -
  from scan_cache_hit [OF assms(1)] have lt: "slot < length (cache (sectionCache l))" by simp
  from assms(2) obtain s where s: "cache (sectionCache l) ! slot = Some s"
    and l': "l' = l\<lparr>sectionCache := (sectionCache l)\<lparr>cache := (cache (sectionCache l))
                      [slot := Some (s\<lparr>position := (position s)
                          (ax := (position s ax)
                             (ay := (position s ax ay)
                                (az := \<lparr>Shape = v'\<rparr>)))\<rparr>)]\<rparr>\<rparr>"
    by (auto simp: write_position_def Let_def split: option.splits if_splits)
  have "\<forall>j \<in> set [0..<length (cache (sectionCache l))].
          slot_holds (cache (sectionCache l') ! j) sx sy
          = slot_holds (cache (sectionCache l) ! j) sx sy"
    using s lt by (auto simp: l' nth_list_update slot_holds_def)
  from scan_cache_Inl_cong [OF assms(1) this, of "-1"] lt show ?thesis
    by (simp add: l')
qed

lemma SetShape_cell:
  assumes "fst (SetShape cd t x y z i l) = Inr r"
  shows "r = True \<and> cell_at (snd (SetShape cd t x y z i l)) x y z (i + 1)
         \<and> in_bounds (go_mod x SECTION_SIZE) SECTION_SIZE
         \<and> in_bounds (go_mod y SECTION_SIZE) SECTION_SIZE
         \<and> in_bounds z SECTION_Z_SIZE"
proof -
  let ?sx = "go_div x SECTION_SIZE" and ?sy = "go_div y SECTION_SIZE"
  let ?ax = "go_mod x SECTION_SIZE" and ?ay = "go_mod y SECTION_SIZE"
  let ?g = "getSection cd t ?sx ?sy l"
  from assms obtain slot l' where g: "fst ?g = Inr slot"
    and w: "write_position (snd ?g) slot ?ax ?ay z (i + 1) = Inr l'"
    and r: "r = True" and l': "snd (SetShape cd t x y z i l) = l'"
    by (auto simp: SetShape_def getPosInSection_def Let_def split: prod.splits sum.splits)
  from w have b: "in_bounds ?ax SECTION_SIZE \<and> in_bounds ?ay SECTION_SIZE \<and> in_bounds z SECTION_Z_SIZE"
    by (auto simp: write_position_def Let_def split: option.splits if_splits)
  from write_position_cell [OF getSection_rescan [OF g] w]
  have "cell_at l' x y z (i + 1)" by (auto simp: cell_at_def)
  with r l' b show ?thesis by simp
qed

lemma GetShape_cell:
  assumes "cell_at l x y z v"
    and "in_bounds (go_mod x SECTION_SIZE) SECTION_SIZE"
    and "in_bounds (go_mod y SECTION_SIZE) SECTION_SIZE"
    and "in_bounds z SECTION_Z_SIZE"
  shows "fst (GetShape cd t x y z l) = Inr (if v = 0 then (0, False) else (v - 1, True))
         \<and> cell_at (snd (GetShape cd t x y z l)) x y z v"
proof -
  from cell_at_getPosInSection [OF assms(1), of cd t] obtain slot s where
    p: "getPosInSection cd t x y z l =
            (Inr (slot, go_mod x SECTION_SIZE, go_mod y SECTION_SIZE, z),
             l\<lparr>sectionCache := (sectionCache l)\<lparr>times := (times (sectionCache l))[slot := t]\<rparr>\<rparr>)"
    and s: "cache (sectionCache l) ! slot = Some s"
       "Shape (position s (go_mod x SECTION_SIZE) (go_mod y SECTION_SIZE) z) = v"
    by blast
  show ?thesis
    using s assms by (auto simp: GetShape_def p read_position_def cell_at_times)
qed

lemma EraseShape_cell:
  assumes "cell_at l x y z v"
    and "in_bounds (go_mod x SECTION_SIZE) SECTION_SIZE"
    and "in_bounds (go_mod y SECTION_SIZE) SECTION_SIZE"
    and "in_bounds z SECTION_Z_SIZE"
  shows "fst (EraseShape cd t x y z l) = Inr (0 <s v)
         \<and> cell_at (snd (EraseShape cd t x y z l)) x y z (if 0 <s v then 0 else v)"
proof -
  let ?l0 = "l\<lparr>sectionCache := (sectionCache l)\<lparr>times := (times (sectionCache l))[slot := t]\<rparr>\<rparr>"
  from cell_at_getPosInSection [OF assms(1), of cd t] obtain slot s where
    p: "getPosInSection cd t x y z l =
            (Inr (slot, go_mod x SECTION_SIZE, go_mod y SECTION_SIZE, z),
             l\<lparr>sectionCache := (sectionCache l)\<lparr>times := (times (sectionCache l))[slot := t]\<rparr>\<rparr>)"
    and s: "cache (sectionCache l) ! slot = Some s"
       "Shape (position s (go_mod x SECTION_SIZE) (go_mod y SECTION_SIZE) z) = v"
    and scan: "scan_cache (sectionCache l) (go_div x SECTION_SIZE) (go_div y SECTION_SIZE)
               [0..<length (cache (sectionCache l))] (-1) = Inl slot"
    by blast
  let ?l0 = "l\<lparr>sectionCache := (sectionCache l)\<lparr>times := (times (sectionCache l))[slot := t]\<rparr>\<rparr>"
  have rd: "read_position ?l0 slot (go_mod x SECTION_SIZE) (go_mod y SECTION_SIZE) z = Inr v"
    using s assms by (simp add: read_position_def)
  show ?thesis
  proof (cases "0 <s v")
    case False
    with rd assms(1) show ?thesis
      by (simp add: EraseShape_def p cell_at_times)
  next
    case True
    have scan0: "scan_cache (sectionCache ?l0) (go_div x SECTION_SIZE) (go_div y SECTION_SIZE)
               [0..<length (cache (sectionCache ?l0))] (-1) = Inl slot"
      using scan_cache_Inl_cong [OF scan, of "sectionCache ?l0" "-1"] by simp
    obtain l' where w: "write_position ?l0 slot (go_mod x SECTION_SIZE) (go_mod y SECTION_SIZE) z 0 = Inr l'"
      using s assms by (simp add: write_position_def Let_def)
    from write_position_cell [OF scan0 w] have "cell_at l' x y z 0"
      by (auto simp: cell_at_def)
    with True rd w show ?thesis
      by (simp add: EraseShape_def p)
  qed
qed


lemma shape_index_succ:
  assumes "0 \<le>s (i :: gint)" and "i <s 0x7FFFFFFFFFFFFFFF"
  shows "i + 1 \<noteq> 0 \<and> 0 <s i + 1"
proof -
  from assms have b: "0 \<le> sint i" "sint i < 2 ^ 63 - 1"
    by (simp_all add: word_sle_eq word_sless_alt)
  have "i + 1 = word_of_int (sint i + 1)" by simp
  then have "sint (i + 1) = sint i + 1"
    using b sint_word_of_int_small [of "sint i + 1"] by simp
  with b have "0 < sint (i + 1)" by simp
  then show ?thesis by (auto simp: word_sless_alt)
qed

lemma SetShape_outcome:
  assumes "0 \<le>s x" and "0 \<le>s y" and "in_bounds z SECTION_Z_SIZE"
  shows "(\<exists>e. fst (SetShape cd t x y z i l) = Inl (Fatal e)) \<or> fst (SetShape cd t x y z i l) = Inr True"
proof -
  let ?sx = "go_div x SECTION_SIZE" and ?sy = "go_div y SECTION_SIZE"
  let ?g = "getSection cd t ?sx ?sy l"
  show ?thesis
  proof (cases "fst ?g")
    case (Inl e)
    then show ?thesis
      by (auto simp: SetShape_def getPosInSection_def Let_def split: prod.splits sum.splits)
  next
    case (Inr slot)
    from getSection_slot [OF Inr] obtain s where "cache (sectionCache (snd ?g)) ! slot = Some s"
      by (auto simp: slot_holds_def split: option.splits)
    with Inr assms go_mod_in_bounds [OF assms(1)] go_mod_in_bounds [OF assms(2)] show ?thesis
      by (auto simp: SetShape_def getPosInSection_def Let_def write_position_def
          split: prod.splits sum.splits)
  qed
qed

text \<open>
  Claim C1, for world coordinates that are not negative. With \<open>x\<close> and \<open>y\<close> non-negative,
  \<open>z\<close> inside \<open>[0, 24)\<close> and \<open>i\<close> a shape index, \<open>SetShape\<close> either ends the process in
  \<open>log.Fatal\<close> because the section could not be loaded or the evicted one not saved, or
  it returns true; and then \<open>GetShape\<close> returns \<open>(i, true)\<close>, a first \<open>EraseShape\<close> returns
  true, a second one false, and \<open>GetShape\<close> after the erase reports that nothing is
  there. The clock readings \<open>t1\<close> to \<open>t5\<close> of the calls are arbitrary.
\<close>

theorem shape_set_get_erase:
  assumes "0 \<le>s x" and "0 \<le>s y" and "in_bounds z SECTION_Z_SIZE"
    and "0 \<le>s i" and "i <s 0x7FFFFFFFFFFFFFFF"
  shows "(\<exists>e. fst (SetShape cd t1 x y z i loader) = Inl (Fatal e))
       \<or> (fst (SetShape cd t1 x y z i loader) = Inr True
          \<and> (let l1 = snd (SetShape cd t1 x y z i loader);
                  l2 = snd (GetShape cd t2 x y z l1);
                  l3 = snd (EraseShape cd t3 x y z l2);
                  l4 = snd (EraseShape cd t4 x y z l3)
              in fst (GetShape cd t2 x y z l1) = Inr (i, True)
               \<and> fst (EraseShape cd t3 x y z l1) = Inr True
               \<and> fst (EraseShape cd t3 x y z l2) = Inr True
               \<and> fst (EraseShape cd t4 x y z l3) = Inr False
               \<and> fst (GetShape cd t5 x y z l3) = Inr (0, False)
               \<and> fst (GetShape cd t5 x y z l4) = Inr (0, False)))"
proof (cases "fst (SetShape cd t1 x y z i loader) = Inr True")
  case False
  with SetShape_outcome [OF assms(1-3), of cd t1 i loader] show ?thesis by simp
next
  case True
  let ?l1 = "snd (SetShape cd t1 x y z i loader)"
  let ?l2 = "snd (GetShape cd t2 x y z ?l1)"
  let ?l3 = "snd (EraseShape cd t3 x y z ?l2)"
  let ?l4 = "snd (EraseShape cd t4 x y z ?l3)"
  from shape_index_succ [OF assms(4,5)] have v: "i + 1 \<noteq> 0" "0 <s i + 1" by simp_all
  from SetShape_cell [OF True] have c1: "cell_at ?l1 x y z (i + 1)"
    and b: "in_bounds (go_mod x SECTION_SIZE) SECTION_SIZE"
      "in_bounds (go_mod y SECTION_SIZE) SECTION_SIZE" "in_bounds z SECTION_Z_SIZE"
    by simp_all
  note g1 = GetShape_cell [OF c1 b, of cd t2]
  then have c2: "cell_at ?l2 x y z (i + 1)" by simp
  note e1 = EraseShape_cell [OF c1 b, of cd t3]
  note e2 = EraseShape_cell [OF c2 b, of cd t3]
  then have c3: "cell_at ?l3 x y z 0" using v by simp
  note e3 = EraseShape_cell [OF c3 b, of cd t4]
  then have c4: "cell_at ?l4 x y z 0" by simp
  note g3 = GetShape_cell [OF c3 b, of cd t5]
  note g4 = GetShape_cell [OF c4 b, of cd t5]
  from True g1 e1 e2 e3 g3 g4 v show ?thesis by (simp add: Let_def)
qed

theorem shape_set_get_erase_witness:
  "0 \<le>s (5000 :: gint) \<and> 0 \<le>s (5010 :: gint) \<and> in_bounds 3 SECTION_Z_SIZE
   \<and> 0 \<le>s (41 :: gint) \<and> (41 :: gint) <s 0x7FFFFFFFFFFFFFFF
   \<and> fst (SetShape sample_codec 1 5000 5010 3 41 (NewLoader ''user'' ''game'')) = Inr True
   \<and> fst (GetShape sample_codec 2 5000 5010 3
            (snd (SetShape sample_codec 1 5000 5010 3 41 (NewLoader ''user'' ''game'')))) = Inr (41, True)
   \<and> fst (EraseShape sample_codec 3 5000 5010 3
            (snd (SetShape sample_codec 1 5000 5010 3 41 (NewLoader ''user'' ''game'')))) = Inr True"
proof -
  have h: "0 \<le>s (5000 :: gint)" "0 \<le>s (5010 :: gint)" "in_bounds 3 SECTION_Z_SIZE"
    "0 \<le>s (41 :: gint)" "(41 :: gint) <s 0x7FFFFFFFFFFFFFFF"
    by code_simp+
  have s: "fst (SetShape sample_codec 1 5000 5010 3 41 (NewLoader ''user'' ''game'')) = Inr True"
    by code_simp
  from shape_set_get_erase [OF h, of sample_codec 1 "NewLoader ''user'' ''game''" 2 3 4 5] s h
  show ?thesis by (simp add: Let_def)
qed

text \<open>With a negative coordinate the claim fails: at \<open>x = -1\<close> the local index is
  \<open>-1 % 200 = -1\<close>, and \<open>SetShape\<close> panics on the array access.\<close>

theorem shape_negative_coordinate_counterexample:
  "in_bounds 0 SECTION_Z_SIZE
   \<and> fst (SetShape sample_codec 1 (-1) 0 0 41 (NewLoader ''user'' ''game'')) = Inl IndexOutOfRange
   \<and> fst (GetShape sample_codec 2 (-1) 0 0
        (snd (SetShape sample_codec 1 (-1) 0 0 41 (NewLoader ''user'' ''game'')))) \<noteq> Inr (41, True)"
  by code_simp

subsection \<open>Saving a section and loading it again\<close>

lemma load_path_after_save:
  assumes "fst (save cd s loader) = None"
  shows "load_path (snd (save cd s loader)) (sec_X s) (sec_Y s) = save_path loader s"
  using assms
  by (auto simp: save_def load_path_def save_path_def Let_def split: option.splits if_splits)

text \<open>
  Claim C4. Let the gzip writer and reader and the gob encoder and decoder be lossless
  on what \<open>save\<close> writes for the section \<open>s\<close>: the two arrays encode to \<open>pb\<close> and \<open>eb\<close>,
  the gzip reader gives back the stream \<open>VERSION # pb @ eb\<close>, and the decoder takes the
  position array and then the edge array off that stream. Then \<open>save\<close> succeeds on a
  path that can be created, and \<open>load\<close> of the same section coordinates from the file
  it wrote returns \<open>s\<close> itself: the same position array and the same edge array. The
  version byte is the first byte inside the gzip stream.
\<close>

theorem save_load_roundtrip:
  assumes "save_path loader s \<notin> denied loader"
    and "gob_enc_position cd (position s) = Some pb"
    and "gob_enc_edges cd (edges s) = Some eb"
    and "gzip_read cd (gzip_write cd (VERSION # pb @ eb)) = Some (VERSION # pb @ eb)"
    and "gob_dec_position cd (pb @ eb) = Some (position s, eb)"
    and "gob_dec_edges cd eb = Some (edges s, rest)"
  shows "fst (save cd s loader) = None
       \<and> disk (snd (save cd s loader)) (save_path loader s) = Some (gzip_write cd (VERSION # pb @ eb))
       \<and> load cd (sec_X s) (sec_Y s) (snd (save cd s loader)) = Inr s"
proof -
  have sv: "save cd s loader =
      (None, loader\<lparr>disk := (disk loader)(save_path loader s \<mapsto> gzip_write cd (VERSION # pb @ eb))\<rparr>)"
    using assms(1-3) by (simp add: save_def Let_def)
  then have ok: "fst (save cd s loader) = None" by simp
  have p: "load_path (snd (save cd s loader)) (sec_X s) (sec_Y s) = save_path loader s"
    by (rule load_path_after_save [OF ok])
  have "load cd (sec_X s) (sec_Y s) (snd (save cd s loader)) = Inr s"
    unfolding load_def p using assms(1,4-6) by (simp add: sv Let_def)
  with sv show ?thesis by simp
qed

theorem save_load_roundtrip_witness:
  "save_path (NewLoader ''user'' ''game'') sample_section \<notin> denied (NewLoader ''user'' ''game'')
   \<and> gob_enc_position sample_codec (position sample_section) = Some [42]
   \<and> gob_enc_edges sample_codec (edges sample_section) = Some [7]
   \<and> gzip_read sample_codec (gzip_write sample_codec (VERSION # [42] @ [7])) = Some (VERSION # [42] @ [7])
   \<and> gob_dec_position sample_codec ([42] @ [7]) = Some (position sample_section, [7])
   \<and> gob_dec_edges sample_codec [7] = Some (edges sample_section, [])
   \<and> save_path (NewLoader ''user'' ''game'') sample_section = [''game'', ''maps'', ''map191a'']
   \<and> disk (snd (save sample_codec sample_section (NewLoader ''user'' ''game'')))
        [''game'', ''maps'', ''map191a''] = Some [1, 42, 7]
   \<and> load sample_codec 25 26 (snd (save sample_codec sample_section (NewLoader ''user'' ''game'')))
       = Inr sample_section"
proof -
  have h1: "save_path (NewLoader ''user'' ''game'') sample_section \<notin> denied (NewLoader ''user'' ''game'')"
    by (simp add: NewLoader_def)
  have h2: "gob_enc_position sample_codec (position sample_section) = Some [42]"
    and h3: "gob_enc_edges sample_codec (edges sample_section) = Some [7]"
    and h4: "gzip_read sample_codec (gzip_write sample_codec (VERSION # [42] @ [7])) = Some (VERSION # [42] @ [7])"
    and h5: "gob_dec_position sample_codec ([42] @ [7]) = Some (position sample_section, [7])"
    and h6: "gob_dec_edges sample_codec [7] = Some (edges sample_section, [])"
    by (simp_all add: sample_codec_def sample_section_def)
  have p: "save_path (NewLoader ''user'' ''game'') sample_section = [''game'', ''maps'', ''map191a'']"
    by code_simp
  have k: "sec_X sample_section = 25" "sec_Y sample_section = 26" "VERSION # [42] @ [7] = [1, 42, 7]"
    "gzip_write sample_codec [1, 42, 7] = [1, 42, 7]"
    by (simp_all add: sample_section_def VERSION_def sample_codec_def)
  from save_load_roundtrip [OF h1 h2 h3 h4 h5 h6] h1 h2 h3 h4 h5 h6 p k
  show ?thesis by simp
qed

section \<open>gfx: the view, collisions and the path finder\<close>

definition SIZE :: gint where "SIZE = 96"
definition SEARCH_SIZE :: nat where "SEARCH_SIZE = 16"

record BoundingBox =
  box_X :: gint
  box_Y :: gint
  box_Z :: gint
  box_W :: gint
  box_H :: gint
  box_D :: gint

text \<open>Modelled from the spec: the file that declares \<open>BoundingBox\<close> and its methods is not
  among the sources. A box is an anchor \<open>(x, y, z)\<close> with extents; \<open>SetPos\<close> moves the
  anchor; \<open>intersect\<close> is the box-intersection test of axis-aligned boxes, which extend
  from the anchor towards larger coordinates.\<close>

definition SetPos :: "BoundingBox \<Rightarrow> gint \<Rightarrow> gint \<Rightarrow> gint \<Rightarrow> BoundingBox" where
  "SetPos bb x y z = bb\<lparr>box_X := x, box_Y := y, box_Z := z\<rparr>"

definition intersect :: "BoundingBox \<Rightarrow> BoundingBox \<Rightarrow> bool" where
  "intersect a b \<longleftrightarrow>
     box_X a <s box_X b + box_W b \<and> box_X b <s box_X a + box_W a
     \<and> box_Y a <s box_Y b + box_H b \<and> box_Y b <s box_Y a + box_H a
     \<and> box_Z a <s box_Z b + box_D b \<and> box_Z b <s box_Z a + box_D a"

text \<open>Modelled from the spec: \<open>util.AbsInt\<close> is not among the sources; the absolute value
  of an \<open>int\<close>, as the Manhattan distance needs it.\<close>

definition AbsInt :: "gint \<Rightarrow> gint" where
  "AbsInt x = (if x <s 0 then - x else x)"

text \<open>The shape catalog \<open>shapes.Shapes\<close>, a slice of pointers of which some are nil. Of a
  shape only the \<open>NoSupport\<close> flag matters here. Every entry that is not nil points to a
  shape of its own, so a pointer to a shape is nil or the index of its entry.\<close>

record Shape =
  NoSupport :: bool

type_synonym catalog = "Shape option list"
type_synonym shape_ptr = "nat option"

definition Shapes_at :: "catalog \<Rightarrow> gint \<Rightarrow> error + shape_ptr" where
  "Shapes_at Shapes i =
     (if 0 \<le>s i \<and> sint i < int (length Shapes)
      then Inr (case Shapes ! nat (sint i) of None \<Rightarrow> None | Some _ \<Rightarrow> Some (nat (sint i)))
      else Inl IndexOutOfRange)"

definition Shapes_NoSupport :: "catalog \<Rightarrow> gint \<Rightarrow> error + bool" where
  "Shapes_NoSupport Shapes i =
     (if 0 \<le>s i \<and> sint i < int (length Shapes)
      then (case Shapes ! nat (sint i) of None \<Rightarrow> Inl NilPointer | Some s \<Rightarrow> Inr (NoSupport s))
      else Inl IndexOutOfRange)"

text \<open>A \<open>*BlockPos\<close> of the grid \<open>view.blockPos\<close> is named by its three indices.\<close>

type_synonym cell = "gint \<times> gint \<times> gint"
type_synonym PathStep = "gint \<times> gint \<times> gint"

record PathNode =
  pn_f :: gint
  pn_g :: gint
  pn_h :: gint
  visited :: bool
  closed :: bool
  fitCalled :: bool
  blocker :: "cell option"
  debug :: string
  parent :: "cell option"

record SectionPosition =
  Block :: gint

record BlockPos =
  bp_x :: gint
  bp_y :: gint
  bp_z :: gint
  bp_worldX :: gint
  bp_worldY :: gint
  bp_worldZ :: gint
  pos :: "SectionPosition option"
  box :: BoundingBox
  pathNode :: PathNode

record ViewContext =
  isFlying :: bool
  isPathing :: bool
  usePathThrough :: bool
  pathThroughShapes :: "shape_ptr set"
  ctx_start :: "cell option"
  ctx_end :: "cell option"
  startBox :: "BoundingBox option"
  endBox :: "BoundingBox option"

text \<open>Of the view, the fields the queries read: the loader with the focal point, the
  grid of cells, and the path-finding context \<open>view.context\<close>.\<close>

record View =
  Loader :: Loader
  blockPos :: "cell \<Rightarrow> BlockPos"
  maxZ :: gint
  view_context :: ViewContext

definition AddPathThroughShape :: "shape_ptr \<Rightarrow> View \<Rightarrow> View" where
  "AddPathThroughShape shape view =
     view\<lparr>view_context := (view_context view)
            \<lparr>pathThroughShapes := insert shape (pathThroughShapes (view_context view))\<rparr>\<rparr>"

subsection \<open>Coordinates\<close>

definition toWorldPos :: "View \<Rightarrow> gint \<Rightarrow> gint \<Rightarrow> gint \<Rightarrow> gint \<times> gint \<times> gint" where
  "toWorldPos view viewX viewY viewZ =
     (viewX + (loader_X (Loader view) - go_div SIZE 2),
      viewY + (loader_Y (Loader view) - go_div SIZE 2),
      viewZ)"

definition isValidViewPos :: "gint \<Rightarrow> gint \<Rightarrow> gint \<Rightarrow> bool" where
  "isValidViewPos viewX viewY viewZ \<longleftrightarrow>
     \<not> (viewX <s 0 \<or> SIZE \<le>s viewX \<or> viewY <s 0 \<or> SIZE \<le>s viewY
        \<or> viewZ <s 0 \<or> SECTION_Z_SIZE \<le>s viewZ)"

definition toViewPos :: "View \<Rightarrow> gint \<Rightarrow> gint \<Rightarrow> gint \<Rightarrow> gint \<times> gint \<times> gint \<times> bool" where
  "toViewPos view worldX worldY worldZ =
     (let viewX = worldX - (loader_X (Loader view) - go_div SIZE 2);
          viewY = worldY - (loader_Y (Loader view) - go_div SIZE 2)
      in (viewX, viewY, worldZ, isValidViewPos viewX viewY worldZ))"

definition InView :: "View \<Rightarrow> gint \<Rightarrow> gint \<Rightarrow> gint \<Rightarrow> bool" where
  "InView view worldX worldY worldZ =
     (case toViewPos view worldX worldY worldZ of (_, _, _, validPos) \<Rightarrow> validPos)"

text \<open>\<open>view.blockPos[x][y][z]\<close>: the indices are checked by the runtime.\<close>

definition blockPos_at :: "gint \<Rightarrow> gint \<Rightarrow> gint \<Rightarrow> error + cell" where
  "blockPos_at x y z =
     (if in_bounds x SIZE \<and> in_bounds y SIZE \<and> in_bounds z SECTION_Z_SIZE
      then Inr (x, y, z) else Inl IndexOutOfRange)"

subsection \<open>Collisions\<close>

text \<open>The cells that \<open>search\<close> visits, in the order of its three nested loops.\<close>

definition search_cells :: "gint \<Rightarrow> gint \<Rightarrow> gint \<Rightarrow> cell list" where
  "search_cells viewX viewY viewZ =
     concat (map (\<lambda>x. concat (map (\<lambda>y. map (\<lambda>z. (viewX - of_nat x, viewY - of_nat y, viewZ - of_nat z))
                                           [0..<SEARCH_SIZE])
                                 [0..<SEARCH_SIZE]))
                 [0..<SEARCH_SIZE])"

text \<open>\<open>search\<close> over the cells still to visit. The callback \<open>fx\<close> may panic. The result is
  the cell at which \<open>fx\<close> returned true and the search stopped, if any; both callers keep
  exactly that cell.\<close>

fun search_loop :: "View \<Rightarrow> (cell \<Rightarrow> error + bool) \<Rightarrow> cell list \<Rightarrow> error + cell option" where
  "search_loop view fx [] = Inr None"
| "search_loop view fx ((vx, vy, vz) # rest) =
     (if isValidViewPos vx vy vz then
        (case pos (blockPos view (vx, vy, vz)) of
           None \<Rightarrow> Inl NilPointer
         | Some p \<Rightarrow>
             if 0 <s Block p then
               (case fx (vx, vy, vz) of
                  Inl e \<Rightarrow> Inl e
                | Inr True \<Rightarrow> Inr (Some (vx, vy, vz))
                | Inr False \<Rightarrow> search_loop view fx rest)
             else search_loop view fx rest)
      else search_loop view fx rest)"

definition search ::
  "View \<Rightarrow> gint \<Rightarrow> gint \<Rightarrow> gint \<Rightarrow> (cell \<Rightarrow> error + bool) \<Rightarrow> error + cell option" where
  "search view viewX viewY viewZ fx = search_loop view fx (search_cells viewX viewY viewZ)"

text \<open>The callback of \<open>getBlockerAt\<close>, for a cell \<open>bp\<close> that \<open>search\<close> found occupied. \<open>bb\<close>
  is the box already moved to the target.\<close>

definition blocks :: "catalog \<Rightarrow> View \<Rightarrow> BoundingBox \<Rightarrow> cell option \<Rightarrow> cell \<Rightarrow> error + bool" where
  "blocks Shapes view bb src bp =
     (case pos (blockPos view bp) of
        None \<Rightarrow> Inl NilPointer
      | Some bpos \<Rightarrow>
          (let ctx = view_context view;
               pathThrough1 =
                 (if isPathing ctx \<and> usePathThrough ctx then
                    (case Shapes_at Shapes (Block bpos - 1) of
                       Inl e \<Rightarrow> Inl e
                     | Inr shape \<Rightarrow> Inr (shape \<in> pathThroughShapes ctx))
                  else Inr False)
           in case pathThrough1 of
                Inl e \<Rightarrow> Inl e
              | Inr pt1 \<Rightarrow>
                  (let pathThrough2 =
                         (if isPathing ctx then
                            (case ctx_end ctx of
                               None \<Rightarrow> Inl NilPointer
                             | Some e \<Rightarrow>
                                 (case pos (blockPos view e) of
                                    None \<Rightarrow> Inr pt1
                                  | Some epos \<Rightarrow>
                                      if 0 <s Block epos \<and> Block bpos = Block epos
                                      then Inr True else Inr pt1))
                          else Inr pt1)
                   in case pathThrough2 of
                        Inl e \<Rightarrow> Inl e
                      | Inr pathThrough \<Rightarrow>
                          Inr (\<not> pathThrough \<and> Some bp \<noteq> src
                               \<and> intersect (box (blockPos view bp)) bb))))"

text \<open>\<open>getBlockerAt\<close> moves \<open>box\<close> to the target, searches, and moves it back; the view is
  the same afterwards. When \<open>box\<close> is the box of the cell \<open>src\<close>, the search never reads
  it through the grid, since the callback tests \<open>bp != src\<close> before \<open>bp.box\<close>.\<close>

definition getBlockerAt ::
  "catalog \<Rightarrow> View \<Rightarrow> gint \<Rightarrow> gint \<Rightarrow> gint \<Rightarrow> BoundingBox \<Rightarrow> cell option \<Rightarrow> error + cell option" where
  "getBlockerAt Shapes view toViewX toViewY toViewZ box0 src =
     (let bb = SetPos box0 toViewX toViewY toViewZ in
      search view (toViewX + box_W bb) (toViewY + box_H bb) (toViewZ + box_D bb)
        (blocks Shapes view bb src))"

definition GetBlocker :: "catalog \<Rightarrow> View \<Rightarrow> gint \<Rightarrow> gint \<Rightarrow> gint \<Rightarrow> error + cell option" where
  "GetBlocker Shapes view toWorldX toWorldY toWorldZ =
     (case ctx_start (view_context view) of
        None \<Rightarrow> Inl NilPointer
      | Some src \<Rightarrow>
          (case pos (blockPos view src) of
             None \<Rightarrow> Inl NilPointer
           | Some spos \<Rightarrow>
               if Block spos = 0 then Inr None
               else
                 (case toViewPos view toWorldX toWorldY toWorldZ of
                    (toViewX, toViewY, toViewZ, validPos) \<Rightarrow>
                      if \<not> validPos then Inr None
                      else getBlockerAt Shapes view toViewX toViewY toViewZ
                             (box (blockPos view src)) (Some src))))"

subsection \<open>Moving a footprint to a cell\<close>

definition set_pathNode :: "View \<Rightarrow> cell \<Rightarrow> (PathNode \<Rightarrow> PathNode) \<Rightarrow> View" where
  "set_pathNode view c upd =
     view\<lparr>blockPos := (blockPos view)
             (c := (blockPos view c)\<lparr>pathNode := upd (pathNode (blockPos view c))\<rparr>)\<rparr>"

definition getBlockerWithCache ::
  "catalog \<Rightarrow> View \<Rightarrow> cell \<Rightarrow> error + cell option \<times> View" where
  "getBlockerWithCache Shapes view node =
     (let bp = blockPos view node in
      if isPathing (view_context view) then
        (if \<not> fitCalled (pathNode bp) then
           (case GetBlocker Shapes view (bp_worldX bp) (bp_worldY bp) (bp_worldZ bp) of
              Inl e \<Rightarrow> Inl e
            | Inr b \<Rightarrow>
                Inr (b, set_pathNode view node (\<lambda>pn. pn\<lparr>fitCalled := True, blocker := b\<rparr>)))
         else Inr (blocker (pathNode bp), view))
      else
        (case GetBlocker Shapes view (bp_worldX bp) (bp_worldY bp) (bp_worldZ bp) of
           Inl e \<Rightarrow> Inl e
         | Inr b \<Rightarrow> Inr (b, view)))"

lemma sint_pred:
  assumes "0 <s (z :: gint)"
  shows "sint (z - 1) = sint z - 1"
proof -
  from assms have b: "0 < sint z" by (simp add: word_sless_alt)
  have u: "sint z < 2 ^ 63" using sint_lt [of z] by simp
  have e: "z - 1 = word_of_int (sint z - 1)" by simp
  have "sint (word_of_int (sint z - 1) :: gint) = sint z - 1"
    using b u by (simp only: sint_sbintrunc') (simp add: signed_take_bit_int_eq_self)
  then show ?thesis by (simp only: e)
qed

text \<open>The first loop of \<open>tryMove\<close>: drop from \<open>z\<close> while nothing blocks the cell below. It
  gives the \<open>z\<close> reached and the value of \<open>standingOn\<close>.\<close>

function dropDown ::
  "catalog \<Rightarrow> View \<Rightarrow> gint \<Rightarrow> gint \<Rightarrow> gint \<Rightarrow> error + (gint \<times> cell option) \<times> View" where
  "dropDown Shapes view newViewX newViewY z =
     (if 0 <s z then
        (case blockPos_at newViewX newViewY (z - 1) of
           Inl e \<Rightarrow> Inl e
         | Inr below \<Rightarrow>
             (case getBlockerWithCache Shapes view below of
                Inl e \<Rightarrow> Inl e
              | Inr (Some standingOn, view') \<Rightarrow> Inr ((z, Some standingOn), view')
              | Inr (None, view') \<Rightarrow> dropDown Shapes view' newViewX newViewY (z - 1)))
      else Inr ((z, None), view))"
  by pat_completeness auto
termination
proof (relation "measure (\<lambda>(Shapes, view, newViewX, newViewY, z). nat (sint z))")
  show "wf (measure (\<lambda>(Shapes, view, newViewX, newViewY, z). nat (sint z)))" by simp
next
  fix Shapes :: catalog and view view' :: View and newViewX newViewY z :: gint
  assume "0 <s z"
  then have "sint (z - 1) = sint z - 1" "0 < sint z"
    by (simp_all add: sint_pred word_sless_alt)
  then show "((Shapes, view', newViewX, newViewY, z - 1), (Shapes, view, newViewX, newViewY, z))
      \<in> measure (\<lambda>(Shapes, view, newViewX, newViewY, z). nat (sint z))"
    by simp
qed

declare dropDown.simps [simp del]

text \<open>The test of \<open>tryMove\<close> after the drop: a mover that does not fly may not stand on a
  shape marked \<open>NoSupport\<close>.\<close>

definition rejects_landing :: "catalog \<Rightarrow> View \<Rightarrow> cell option \<Rightarrow> error + bool" where
  "rejects_landing Shapes view standingOn =
     (if \<not> isFlying (view_context view) then
        (case standingOn of
           None \<Rightarrow> Inr False
         | Some s \<Rightarrow>
             (case pos (blockPos view s) of
                None \<Rightarrow> Inl NilPointer
              | Some spos \<Rightarrow> Shapes_NoSupport Shapes (Block spos - 1)))
      else Inr False)"

text \<open>The last part of \<open>tryMove\<close>: the move at the same \<open>z\<close>, then the step up.\<close>

definition same_z_or_step_up ::
  "catalog \<Rightarrow> View \<Rightarrow> gint \<Rightarrow> gint \<Rightarrow> gint \<Rightarrow> error + cell option \<times> View" where
  "same_z_or_step_up Shapes view newViewX newViewY newViewZ =
     (case blockPos_at newViewX newViewY newViewZ of
        Inl e \<Rightarrow> Inl e
      | Inr newNode \<Rightarrow>
          (case getBlockerWithCache Shapes view newNode of
             Inl e \<Rightarrow> Inl e
           | Inr (None, view2) \<Rightarrow> Inr (Some newNode, view2)
           | Inr (Some _, view2) \<Rightarrow>
               (case blockPos_at newViewX newViewY (newViewZ + 1) of
                  Inl e \<Rightarrow> Inl e
                | Inr upNode \<Rightarrow>
                    (case getBlockerWithCache Shapes view2 upNode of
                       Inl e \<Rightarrow> Inl e
                     | Inr (None, view3) \<Rightarrow> Inr (Some upNode, view3)
                     | Inr (Some _, view3) \<Rightarrow> Inr (None, view3)))))"

definition tryMove ::
  "catalog \<Rightarrow> View \<Rightarrow> gint \<Rightarrow> gint \<Rightarrow> gint \<Rightarrow> error + cell option \<times> View" where
  "tryMove Shapes view newViewX newViewY newViewZ =
     (case dropDown Shapes view newViewX newViewY newViewZ of
        Inl e \<Rightarrow> Inl e
      | Inr ((z, standingOn), view1) \<Rightarrow>
          (case rejects_landing Shapes view1 standingOn of
             Inl e \<Rightarrow> Inl e
           | Inr True \<Rightarrow> Inr (None, view1)
           | Inr False \<Rightarrow>
               if z <s newViewZ then
                 (case blockPos_at newViewX newViewY z of
                    Inl e \<Rightarrow> Inl e
                  | Inr c \<Rightarrow> Inr (Some c, view1))
               else same_z_or_step_up Shapes view1 newViewX newViewY newViewZ))"

definition tryInDir ::
  "catalog \<Rightarrow> View \<Rightarrow> cell \<Rightarrow> gint \<Rightarrow> gint \<Rightarrow> error + cell option \<times> View" where
  "tryInDir Shapes view node dx dy =
     (let bp = blockPos view node in
      tryMove Shapes view (bp_x bp + dx) (bp_y bp + dy) (bp_z bp))"

text \<open>One of the four blocks of \<open>astarNeighbors\<close>: when the guard holds, try the direction
  and append the cell found.\<close>

definition try_append ::
  "catalog \<Rightarrow> cell \<Rightarrow> bool \<Rightarrow> gint \<Rightarrow> gint \<Rightarrow> error + cell list \<times> View
     \<Rightarrow> error + cell list \<times> View" where
  "try_append Shapes node guard dx dy acc =
     (case acc of
        Inl e \<Rightarrow> Inl e
      | Inr (ret, view) \<Rightarrow>
          if guard then
            (case tryInDir Shapes view node dx dy of
               Inl e \<Rightarrow> Inl e
             | Inr (None, view') \<Rightarrow> Inr (ret, view')
             | Inr (Some newNode, view') \<Rightarrow> Inr (ret @ [newNode], view'))
          else Inr (ret, view))"

definition astarNeighbors :: "catalog \<Rightarrow> View \<Rightarrow> cell \<Rightarrow> error + cell list \<times> View" where
  "astarNeighbors Shapes view node =
     (let nx = bp_x (blockPos view node); ny = bp_y (blockPos view node) in
      try_append Shapes node (ny + 1 <s SIZE) 0 1
        (try_append Shapes node (0 \<le>s ny - 1) 0 (-1)
          (try_append Shapes node (nx + 1 <s SIZE) 1 0
            (try_append Shapes node (0 \<le>s nx - 1) (-1) 0 (Inr ([], view))))))"

subsection \<open>The A* search of path.go\<close>

definition heuristic :: "View \<Rightarrow> cell \<Rightarrow> cell \<Rightarrow> error + gint" where
  "heuristic view pos0 pos1 =
     (case (startBox (view_context view), endBox (view_context view)) of
        (Some sb, Some eb) \<Rightarrow>
          (let p0 = blockPos view pos0; p1 = blockPos view pos1;
               d1 = AbsInt (bp_x p1 + go_div (box_W sb) 2 - bp_x p0 + go_div (box_W eb) 2);
               d2 = AbsInt (bp_y p1 + go_div (box_W sb) 2 - bp_y p0 + go_div (box_W eb) 2);
               d3 = AbsInt (bp_z p1 + go_div (box_W sb) 2 - bp_z p0 + go_div (box_W eb) 2)
           in Inr (d1 + d2 + d3))
      | _ \<Rightarrow> Inl NilPointer)"

text \<open>\<open>generatePath\<close> follows the parent links. Nothing in the loop bounds it: on a cycle
  of links it never returns, which is the value \<open>None\<close> here.\<close>

partial_function (option) generatePath_loop ::
  "View \<Rightarrow> cell \<Rightarrow> PathStep list \<Rightarrow> PathStep list option" where
  "generatePath_loop view currentNode ret =
     (case parent (pathNode (blockPos view currentNode)) of
        None \<Rightarrow> Some ret
      | Some p \<Rightarrow>
          generatePath_loop view p
            (ret @ [toWorldPos view (bp_x (blockPos view currentNode))
                      (bp_y (blockPos view currentNode)) (bp_z (blockPos view currentNode))]))"

declare generatePath_loop.simps [code]

definition reverse :: "PathStep list \<Rightarrow> PathStep list" where
  "reverse nodes = rev nodes"

definition generatePath :: "View \<Rightarrow> cell \<Rightarrow> error + PathStep list" where
  "generatePath view currentNode =
     (case generatePath_loop view currentNode [] of
        None \<Rightarrow> Inl NoReturn
      | Some ret \<Rightarrow> Inr (reverse ret))"

definition resetPathFind :: "View \<Rightarrow> View" where
  "resetPathFind view =
     view\<lparr>blockPos := (\<lambda>(x, y, z).
        if isValidViewPos x y z
        then (blockPos view (x, y, z))
               \<lparr>pathNode := \<lparr>pn_f = 0, pn_g = 0, pn_h = 0, visited = False, closed = False,
                              fitCalled = False, blocker = None, debug = [], parent = None\<rparr>\<rparr>
        else blockPos view (x, y, z))\<rparr>"

definition remove :: "cell list \<Rightarrow> nat \<Rightarrow> cell list" where
  "remove s i = butlast (s[i := last s])"

text \<open>The index of the first node with the lowest \<open>f\<close>.\<close>

fun lowest_f :: "View \<Rightarrow> cell list \<Rightarrow> nat list \<Rightarrow> nat \<Rightarrow> nat" where
  "lowest_f view openList [] lowInd = lowInd"
| "lowest_f view openList (i # rest) lowInd =
     lowest_f view openList rest
       (if pn_f (pathNode (blockPos view (openList ! i)))
             <s pn_f (pathNode (blockPos view (openList ! lowInd)))
        then i else lowInd)"

text \<open>The body of the loop over the neighbours of \<open>currentNode\<close>.\<close>

definition visit_neighbor ::
  "View \<Rightarrow> cell \<Rightarrow> cell \<Rightarrow> cell list \<Rightarrow> error + View \<times> cell list" where
  "visit_neighbor view currentNode neighbor openList =
     (let pn = pathNode (blockPos view neighbor) in
      if \<not> closed pn then
        (let gScore = pn_g (pathNode (blockPos view currentNode)) + 1 in
         if \<not> visited pn then
           (case ctx_end (view_context view) of
              None \<Rightarrow> Inl NilPointer
            | Some e \<Rightarrow>
                (case heuristic view neighbor e of
                   Inl err \<Rightarrow> Inl err
                 | Inr hv \<Rightarrow>
                     Inr (set_pathNode view neighbor
                            (\<lambda>pn. pn\<lparr>pn_h := hv, visited := True, parent := Some currentNode,
                                     pn_g := gScore, pn_f := gScore + hv\<rparr>),
                          openList @ [neighbor])))
         else if gScore <s pn_g pn then
           Inr (set_pathNode view neighbor
                  (\<lambda>pn. pn\<lparr>parent := Some currentNode, pn_g := gScore,
                           pn_f := gScore + pn_h pn\<rparr>),
                openList)
         else Inr (view, openList))
      else Inr (view, openList))"

fun visit_neighbors ::
  "View \<Rightarrow> cell \<Rightarrow> cell list \<Rightarrow> cell list \<Rightarrow> error + View \<times> cell list" where
  "visit_neighbors view currentNode [] openList = Inr (view, openList)"
| "visit_neighbors view currentNode (neighbor # rest) openList =
     (case visit_neighbor view currentNode neighbor openList of
        Inl e \<Rightarrow> Inl e
      | Inr (view', openList') \<Rightarrow> visit_neighbors view' currentNode rest openList')"

text \<open>One turn of the \<open>for len(openList) > 0\<close> loop of \<open>findPath\<close>: it returns a path,
  panics, or goes on with a new open list.\<close>

datatype turn = Return "PathStep list" View | Panic error | Next View "cell list"

definition astar_turn :: "catalog \<Rightarrow> View \<Rightarrow> cell list \<Rightarrow> turn" where
  "astar_turn Shapes view openList =
     (let lowInd = lowest_f view openList [0..<length openList] 0;
          currentNode = openList ! lowInd;
          cur = blockPos view currentNode;
          ctx = view_context view
      in case (startBox ctx, endBox ctx) of
           (Some sb, Some eb) \<Rightarrow>
             (let sb' = SetPos sb (bp_x cur) (bp_y cur) (bp_z cur);
                  view1 = view\<lparr>view_context := ctx\<lparr>startBox := Some sb'\<rparr>\<rparr>
              in if intersect sb' eb then
                   (case generatePath view1 currentNode of
                      Inl e \<Rightarrow> Panic e
                    | Inr steps \<Rightarrow> Return steps view1)
                 else
                   (let openList1 = remove openList lowInd;
                        view2 = set_pathNode view1 currentNode (\<lambda>pn. pn\<lparr>closed := True\<rparr>)
                    in case astarNeighbors Shapes view2 currentNode of
                         Inl e \<Rightarrow> Panic e
                       | Inr (neighbors, view3) \<Rightarrow>
                           (case visit_neighbors view3 currentNode neighbors openList1 of
                              Inl e \<Rightarrow> Panic e
                            | Inr (view4, openList2) \<Rightarrow> Next view4 openList2)))
         | _ \<Rightarrow> Panic NilPointer)"

subsection \<open>The search ends\<close>

definition valid_cell :: "cell \<Rightarrow> bool" where
  "valid_cell c = (case c of (x, y, z) \<Rightarrow> isValidViewPos x y z)"

definition is_visited :: "View \<Rightarrow> cell \<Rightarrow> bool" where
  "is_visited view c = visited (pathNode (blockPos view c))"

text \<open>The number of cells of the grid not yet visited.\<close>

definition unvisited :: "View \<Rightarrow> nat" where
  "unvisited view = card {c. valid_cell c \<and> \<not> is_visited view c}"

lemma is_visited_set_pathNode:
  assumes "\<And>pn. visited (upd pn) = visited pn"
  shows "is_visited (set_pathNode view n upd) = is_visited view"
  using assms by (auto simp: is_visited_def set_pathNode_def fun_eq_iff)

lemma is_visited_context [simp]:
  "is_visited (view\<lparr>view_context := ctx\<rparr>) = is_visited view"
  by (simp add: is_visited_def fun_eq_iff)

lemma getBlockerWithCache_visited:
  assumes "getBlockerWithCache Shapes view node = Inr (b, view')"
  shows "is_visited view' = is_visited view"
  using assms
  by (auto simp: getBlockerWithCache_def Let_def is_visited_set_pathNode
      split: if_splits sum.splits)

lemma dropDown_visited:
  "dropDown Shapes view x y z = Inr (r, view') \<Longrightarrow> is_visited view' = is_visited view"
proof (induction Shapes view x y z rule: dropDown.induct)
  case (1 Shapes view x y z)
  show ?case
  proof (cases "0 <s z")
    case False
    with "1.prems" show ?thesis by (simp add: dropDown.simps [of Shapes view x y z])
  next
    case True
    from "1.prems" True obtain below b v1 where
      bl: "blockPos_at x y (z - 1) = Inr below"
      and g: "getBlockerWithCache Shapes view below = Inr (b, v1)"
      by (auto simp: dropDown.simps [of Shapes view x y z] split: sum.splits)
    note v1 = getBlockerWithCache_visited [OF g]
    show ?thesis
    proof (cases b)
      case (Some s)
      with "1.prems" True bl g v1 show ?thesis
        by (simp add: dropDown.simps [of Shapes view x y z])
    next
      case None
      with "1.prems" True bl g have "dropDown Shapes v1 x y (z - 1) = Inr (r, view')"
        by (simp add: dropDown.simps [of Shapes view x y z])
      from "1.IH" [OF True bl g _ None this] v1 show ?thesis by simp
    qed
  qed
qed

lemma blockPos_at_valid: "blockPos_at x y z = Inr c \<Longrightarrow> valid_cell c"
  by (auto simp: blockPos_at_def valid_cell_def isValidViewPos_def in_bounds_def
      word_sle_eq word_sless_alt SIZE_def SECTION_Z_SIZE_def split: if_splits)

lemma same_z_or_step_up_visited:
  assumes "same_z_or_step_up Shapes view x y z = Inr (r, view')"
  shows "is_visited view' = is_visited view \<and> (\<forall>c. r = Some c \<longrightarrow> valid_cell c)"
proof -
  from assms obtain n b v2 where n: "blockPos_at x y z = Inr n"
    and g: "getBlockerWithCache Shapes view n = Inr (b, v2)"
    by (auto simp: same_z_or_step_up_def split: sum.splits)
  note a = getBlockerWithCache_visited [OF g] blockPos_at_valid [OF n]
  show ?thesis
  proof (cases b)
    case None
    with assms n g a show ?thesis by (auto simp: same_z_or_step_up_def)
  next
    case (Some s)
    with assms n g obtain u b3 v3 where u: "blockPos_at x y (z + 1) = Inr u"
      and g3: "getBlockerWithCache Shapes v2 u = Inr (b3, v3)"
      by (auto simp: same_z_or_step_up_def split: sum.splits)
    note a3 = getBlockerWithCache_visited [OF g3] blockPos_at_valid [OF u]
    from assms n g Some u g3 a a3 show ?thesis
      by (cases b3) (auto simp: same_z_or_step_up_def)
  qed
qed

lemma tryMove_visited:
  assumes "tryMove Shapes view x y z = Inr (r, view')"
  shows "is_visited view' = is_visited view \<and> (\<forall>c. r = Some c \<longrightarrow> valid_cell c)"
proof -
  from assms obtain z1 st v1 rej where d: "dropDown Shapes view x y z = Inr ((z1, st), v1)"
    and rj: "rejects_landing Shapes v1 st = Inr rej"
    by (auto simp: tryMove_def split: sum.splits)
  note a = dropDown_visited [OF d]
  show ?thesis
  proof (cases "rej \<or> z1 <s z")
    case True
    with assms d rj a show ?thesis
      by (auto simp: tryMove_def split: sum.splits if_splits bool.splits dest: blockPos_at_valid)
  next
    case False
    with assms d rj have "same_z_or_step_up Shapes v1 x y z = Inr (r, view')"
      by (simp add: tryMove_def)
    from same_z_or_step_up_visited [OF this] a show ?thesis by simp
  qed
qed

lemma try_append_visited:
  assumes "try_append Shapes node guard dx dy acc = Inr (ret', view')"
  obtains ret view where "acc = Inr (ret, view)" "is_visited view' = is_visited view"
    "set ret' \<subseteq> set ret \<union> {c. valid_cell c}"
proof -
  from assms obtain ret view where acc: "acc = Inr (ret, view)"
    by (cases acc) (auto simp: try_append_def)
  have "is_visited view' = is_visited view \<and> set ret' \<subseteq> set ret \<union> {c. valid_cell c}"
    using assms acc
    by (auto simp: try_append_def tryInDir_def Let_def split: if_splits sum.splits option.splits
        dest!: tryMove_visited)
  with acc that show ?thesis by blast
qed

lemma astarNeighbors_visited:
  assumes "astarNeighbors Shapes view node = Inr (ns, view')"
  shows "is_visited view' = is_visited view \<and> (\<forall>c \<in> set ns. valid_cell c)"
proof -
  let ?nx = "bp_x (blockPos view node)" and ?ny = "bp_y (blockPos view node)"
  from assms have a4: "try_append Shapes node (?ny + 1 <s SIZE) 0 1
        (try_append Shapes node (0 \<le>s ?ny - 1) 0 (-1)
          (try_append Shapes node (?nx + 1 <s SIZE) 1 0
            (try_append Shapes node (0 \<le>s ?nx - 1) (-1) 0 (Inr ([], view))))) = Inr (ns, view')"
    by (simp add: astarNeighbors_def Let_def)
  from a4 obtain r3 v3 where a3: "try_append Shapes node (0 \<le>s ?ny - 1) 0 (-1)
          (try_append Shapes node (?nx + 1 <s SIZE) 1 0
            (try_append Shapes node (0 \<le>s ?nx - 1) (-1) 0 (Inr ([], view)))) = Inr (r3, v3)"
    and p4: "is_visited view' = is_visited v3" "set ns \<subseteq> set r3 \<union> {c. valid_cell c}"
    by (rule try_append_visited)
  from a3 obtain r2 v2 where a2: "try_append Shapes node (?nx + 1 <s SIZE) 1 0
            (try_append Shapes node (0 \<le>s ?nx - 1) (-1) 0 (Inr ([], view))) = Inr (r2, v2)"
    and p3: "is_visited v3 = is_visited v2" "set r3 \<subseteq> set r2 \<union> {c. valid_cell c}"
    by (rule try_append_visited)
  from a2 obtain r1 v1 where a1: "try_append Shapes node (0 \<le>s ?nx - 1) (-1) 0 (Inr ([], view)) = Inr (r1, v1)"
    and p2: "is_visited v2 = is_visited v1" "set r2 \<subseteq> set r1 \<union> {c. valid_cell c}"
    by (rule try_append_visited)
  from a1 obtain r0 v0 where a0: "(Inr ([], view) :: error + cell list \<times> View) = Inr (r0, v0)"
    and p1: "is_visited v1 = is_visited v0" "set r1 \<subseteq> set r0 \<union> {c. valid_cell c}"
    by (rule try_append_visited)
  from a0 have "r0 = []" "v0 = view" by simp_all
  with p1 p2 p3 p4 show ?thesis by auto
qed

lemma unvisited_mark:
  assumes "valid_cell n" and "\<not> is_visited view n"
    and "is_visited view' = (is_visited view)(n := True)"
  shows "Suc (unvisited view') = unvisited view"
proof -
  let ?A = "{c. valid_cell c \<and> \<not> is_visited view c}"
  have "{c. valid_cell c \<and> \<not> is_visited view' c} = ?A - {n}"
    using assms(3) by auto
  moreover have "n \<in> ?A" using assms(1,2) by simp
  moreover have "finite ?A" by simp
  ultimately show ?thesis
    unfolding unvisited_def using card.remove [of ?A n] by simp
qed

lemma visit_neighbor_measure:
  assumes "visit_neighbor view cur n ol = Inr (view', ol')" and "valid_cell n"
  shows "length ol' + unvisited view' = length ol + unvisited view"
proof (cases "\<not> closed (pathNode (blockPos view n)) \<and> \<not> visited (pathNode (blockPos view n))")
  case True
  with assms(1) obtain hv where
    v': "view' = set_pathNode view n
                   (\<lambda>pn. pn\<lparr>pn_h := hv, visited := True, parent := Some cur,
                            pn_g := pn_g (pathNode (blockPos view cur)) + 1,
                            pn_f := pn_g (pathNode (blockPos view cur)) + 1 + hv\<rparr>)"
    and ol': "ol' = ol @ [n]"
    by (auto simp: visit_neighbor_def Let_def split: option.splits sum.splits)
  have "is_visited view' = (is_visited view)(n := True)"
    by (auto simp: v' is_visited_def set_pathNode_def fun_eq_iff)
  from unvisited_mark [OF assms(2) _ this] True have "Suc (unvisited view') = unvisited view"
    by (simp add: is_visited_def)
  with ol' show ?thesis by simp
next
  case False
  with assms(1) have "ol' = ol \<and> is_visited view' = is_visited view"
    by (auto simp: visit_neighbor_def Let_def is_visited_set_pathNode split: if_splits)
  then show ?thesis by (simp add: unvisited_def)
qed

lemma visit_neighbors_measure:
  assumes "visit_neighbors view cur ns ol = Inr (view', ol')" and "\<forall>c \<in> set ns. valid_cell c"
  shows "length ol' + unvisited view' = length ol + unvisited view"
  using assms
proof (induction ns arbitrary: view ol)
  case Nil
  then show ?case by simp
next
  case (Cons n ns)
  from Cons.prems(1) obtain v1 ol1 where
    s: "visit_neighbor view cur n ol = Inr (v1, ol1)"
    and r: "visit_neighbors v1 cur ns ol1 = Inr (view', ol')"
    by (auto split: sum.splits)
  from visit_neighbor_measure [OF s] Cons.prems(2)
  have "length ol1 + unvisited v1 = length ol + unvisited view" by simp
  moreover from Cons.IH [OF r] Cons.prems(2)
  have "length ol' + unvisited view' = length ol1 + unvisited v1" by simp
  ultimately show ?case by simp
qed

lemma length_remove: "s \<noteq> [] \<Longrightarrow> Suc (length (remove s i)) = length s"
  by (simp add: remove_def)

lemma astar_turn_decreases:
  assumes "astar_turn Shapes view openList = Next view' openList'" and "openList \<noteq> []"
  shows "length openList' + unvisited view' < length openList + unvisited view"
proof -
  let ?low = "lowest_f view openList [0..<length openList] 0"
  let ?cur = "openList ! ?low"
  from assms(1) obtain sb eb ns v3 where
    ctx: "startBox (view_context view) = Some sb"
    and n: "astarNeighbors Shapes
              (set_pathNode (view\<lparr>view_context := (view_context view)
                   \<lparr>startBox := Some (SetPos sb (bp_x (blockPos view ?cur))
                        (bp_y (blockPos view ?cur)) (bp_z (blockPos view ?cur)))\<rparr>\<rparr>)
                 ?cur (\<lambda>pn. pn\<lparr>closed := True\<rparr>)) ?cur = Inr (ns, v3)"
    and v: "visit_neighbors v3 ?cur ns (remove openList ?low) = Inr (view', openList')"
    by (auto simp: astar_turn_def Let_def split: option.splits sum.splits if_splits prod.splits)
  from astarNeighbors_visited [OF n]
  have v3: "is_visited v3 = is_visited view" and val: "\<forall>c \<in> set ns. valid_cell c"
    by (simp_all add: is_visited_set_pathNode)
  from visit_neighbors_measure [OF v val]
  have "length openList' + unvisited view' = length (remove openList ?low) + unvisited v3" .
  also have "unvisited v3 = unvisited view" by (simp add: unvisited_def v3)
  finally show ?thesis using length_remove [OF assms(2), of ?low] by simp
qed

function astar_loop ::
  "catalog \<Rightarrow> View \<Rightarrow> cell list \<Rightarrow> error + PathStep list option \<times> View" where
  "astar_loop Shapes view openList =
     (if openList = [] then Inr (None, view)
      else (case astar_turn Shapes view openList of
              Return steps view' \<Rightarrow> Inr (Some steps, view')
            | Panic e \<Rightarrow> Inl e
            | Next view' openList' \<Rightarrow> astar_loop Shapes view' openList'))"
  by pat_completeness auto
termination
  by (relation "measure (\<lambda>(Shapes, view, openList). length openList + unvisited view)")
    (auto dest: astar_turn_decreases)

declare astar_loop.simps [simp del]

text \<open>\<open>findPath\<close>: \<open>nil\<close>, the value \<open>None\<close>, says that no path was found.\<close>

definition findPath :: "catalog \<Rightarrow> View \<Rightarrow> error + PathStep list option \<times> View" where
  "findPath Shapes view =
     (let view1 = resetPathFind view in
      case ctx_start (view_context view1) of
        None \<Rightarrow> Inl NilPointer
      | Some start \<Rightarrow> astar_loop Shapes view1 [start])"

definition FindPath ::
  "catalog \<Rightarrow> View \<Rightarrow> gint \<Rightarrow> gint \<Rightarrow> gint \<Rightarrow> gint \<Rightarrow> gint \<Rightarrow> gint \<Rightarrow> bool \<Rightarrow> gint \<Rightarrow> gint
     \<Rightarrow> error + PathStep list option \<times> View" where
  "FindPath Shapes view sx sy sz ex ey ez flying dSrc dDst =
     (let view1 = view\<lparr>view_context := (view_context view)\<lparr>isFlying := flying, isPathing := True\<rparr>\<rparr>
      in case (toViewPos view1 sx sy sz, toViewPos view1 ex ey ez) of
           ((startViewX, startViewY, startViewZ, startOk), (endViewX, endViewY, endViewZ, endOk)) \<Rightarrow>
             if startOk \<and> endOk then
               (let view2 = view1\<lparr>view_context := (view_context view1)
                      \<lparr>ctx_start := Some (startViewX, startViewY, startViewZ),
                       ctx_end := Some (endViewX, endViewY, endViewZ),
                       startBox := Some \<lparr>box_X = startViewX, box_Y = startViewY, box_Z = startViewZ,
                                          box_W = dSrc, box_H = dSrc, box_D = 4\<rparr>,
                       endBox := Some \<lparr>box_X = endViewX, box_Y = endViewY, box_Z = endViewZ,
                                        box_W = dDst, box_H = dDst, box_D = 4\<rparr>,
                       usePathThrough := False\<rparr>\<rparr>
                in case findPath Shapes view2 of
                     Inl e \<Rightarrow> Inl e
                   | Inr (Some steps, view3) \<Rightarrow>
                       Inr (Some steps,
                            view3\<lparr>view_context := (view_context view3)\<lparr>isPathing := False\<rparr>\<rparr>)
                   | Inr (None, view3) \<Rightarrow>
                       (case findPath Shapes
                               (view3\<lparr>view_context := (view_context view3)\<lparr>usePathThrough := True\<rparr>\<rparr>) of
                          Inl e \<Rightarrow> Inl e
                        | Inr (steps, view4) \<Rightarrow>
                            Inr (steps,
                                 view4\<lparr>view_context := (view_context view4)\<lparr>isPathing := False\<rparr>\<rparr>)))
             else Inr (None, view1\<lparr>view_context := (view_context view1)\<lparr>isPathing := False\<rparr>\<rparr>))"

section \<open>Notions and examples for the properties of the view\<close>

definition zero_node :: PathNode where
  "zero_node = \<lparr>pn_f = 0, pn_g = 0, pn_h = 0, visited = False, closed = False,
                 fitCalled = False, blocker = None, debug = [], parent = None\<rparr>"

text \<open>A view as \<open>InitView\<close> and \<open>Load\<close> leave it around the focal point (5000, 5000), over a
  world given by the block number of each cell and the box of each.\<close>

definition sample_view :: "(cell \<Rightarrow> gint) \<Rightarrow> (cell \<Rightarrow> gint \<times> gint \<times> gint) \<Rightarrow> View" where
  "sample_view blk dims =
     \<lparr>Loader = NewLoader ''user'' ''game'',
      blockPos = (\<lambda>(x, y, z).
         \<lparr>bp_x = x, bp_y = y, bp_z = z,
          bp_worldX = x + (5000 - 48), bp_worldY = y + (5000 - 48), bp_worldZ = z,
          pos = Some \<lparr>Block = blk (x, y, z)\<rparr>,
          box = (case dims (x, y, z) of (w, h, d) \<Rightarrow>
                   \<lparr>box_X = x, box_Y = y, box_Z = z, box_W = w, box_H = h, box_D = d\<rparr>),
          pathNode = zero_node\<rparr>),
      maxZ = 24,
      view_context = \<lparr>isFlying = False, isPathing = False, usePathThrough = False,
                       pathThroughShapes = {}, ctx_start = None, ctx_end = None,
                       startBox = None, endBox = None\<rparr>\<rparr>"

definition empty_view :: View where
  "empty_view = sample_view (\<lambda>_. 0) (\<lambda>_. (0, 0, 0))"


text \<open>A mover of shape 0 in the corner \<open>(0, 0, 0)\<close> of the window, shut in by two cells of
  shape 1 at \<open>(1, 0, 0)\<close> and \<open>(0, 1, 0)\<close>; all three boxes are 1 by 1 by 4.\<close>
definition walled_view :: View where
  "walled_view = sample_view
     (\<lambda>c. if c = (0,0,0) then 1 else if c = (1,0,0) \<or> c = (0,1,0) then 2 else 0)
     (\<lambda>c. if c = (0,0,0) then (1,1,4) else if c = (1,0,0) \<or> c = (0,1,0) then (1,1,4) else (0,0,0))"

definition cat2 :: catalog where "cat2 = [Some \<lparr>NoSupport = False\<rparr>, Some \<lparr>NoSupport = False\<rparr>]"


text \<open>A view in which the start cell \<open>(48, 48, 0)\<close> of the context is empty and the cell
  next to it holds a shape.\<close>

definition probing_view :: View where
  "probing_view =
     (sample_view (\<lambda>c. if c = (49, 48, 0) then 2 else 0)
                  (\<lambda>c. if c = (49, 48, 0) then (1, 1, 4) else (0, 0, 0)))
       \<lparr>view_context := \<lparr>isFlying = False, isPathing = False, usePathThrough = False,
                         pathThroughShapes = {}, ctx_start = Some (48, 48, 0), ctx_end = None,
                         startBox = None, endBox = None\<rparr>\<rparr>"

text \<open>The distance the heuristic is described to be: the Manhattan distance between the
  neighbour, moved by half the width of the start box, and the goal, moved by half the
  width of the end box.\<close>

definition centre_distance :: "View \<Rightarrow> cell \<Rightarrow> cell \<Rightarrow> error + gint" where
  "centre_distance view pos0 pos1 =
     (case (startBox (view_context view), endBox (view_context view)) of
        (Some sb, Some eb) \<Rightarrow>
          (let p0 = blockPos view pos0; p1 = blockPos view pos1;
               d1 = AbsInt ((bp_x p1 + go_div (box_W eb) 2) - (bp_x p0 + go_div (box_W sb) 2));
               d2 = AbsInt ((bp_y p1 + go_div (box_W eb) 2) - (bp_y p0 + go_div (box_W sb) 2));
               d3 = AbsInt ((bp_z p1 + go_div (box_W eb) 2) - (bp_z p0 + go_div (box_W sb) 2))
           in Inr (d1 + d2 + d3))
      | _ \<Rightarrow> Inl NilPointer)"

text \<open>The empty view during \<open>FindPath(5000, 5000, 0, 5003, 5000, 0, false, 2, 2)\<close>.\<close>

definition pathing_view :: View where
  "pathing_view =
     empty_view
       \<lparr>view_context := \<lparr>isFlying = False, isPathing = True, usePathThrough = False,
                         pathThroughShapes = {}, ctx_start = Some (48, 48, 0),
                         ctx_end = Some (51, 48, 0),
                         startBox = Some \<lparr>box_X = 48, box_Y = 48, box_Z = 0,
                                           box_W = 2, box_H = 2, box_D = 4\<rparr>,
                         endBox = Some \<lparr>box_X = 51, box_Y = 48, box_Z = 0,
                                         box_W = 2, box_H = 2, box_D = 4\<rparr>\<rparr>\<rparr>"

text \<open>The search moves the start box and nothing else of the context.\<close>

definition context_but_startBox :: "View \<Rightarrow> ViewContext" where
  "context_but_startBox view = (view_context view)\<lparr>startBox := None\<rparr>"

text \<open>The view with \<open>P\<close> as the table of the shapes that paths may go through.\<close>

definition with_pathThrough :: "shape_ptr set \<Rightarrow> View \<Rightarrow> View" where
  "with_pathThrough P view =
     view\<lparr>view_context := (view_context view)\<lparr>pathThroughShapes := P\<rparr>\<rparr>"

text \<open>A result that carries a view, with the table of the view replaced.\<close>

definition lift_view :: "(View \<Rightarrow> View) \<Rightarrow> error + 'a \<times> View \<Rightarrow> error + 'a \<times> View" where
  "lift_view f r = map_sum id (map_prod id f) r"

definition lift_fst :: "(View \<Rightarrow> View) \<Rightarrow> error + View \<times> 'a \<Rightarrow> error + View \<times> 'a" where
  "lift_fst f r = map_sum id (map_prod f id) r"

fun map_turn :: "(View \<Rightarrow> View) \<Rightarrow> turn \<Rightarrow> turn" where
  "map_turn f (Return steps view) = Return steps (f view)"
| "map_turn f (Panic e) = Panic e"
| "map_turn f (Next view openList) = Next (f view) openList"

text \<open>\<open>search\<close> passes over the cells outside the window, so it may as well visit the cells
  of the cube inside the window only. This form is the one used to run the examples.\<close>

definition valid_search_cells :: "gint \<Rightarrow> gint \<Rightarrow> gint \<Rightarrow> cell list" where
  "valid_search_cells viewX viewY viewZ =
     concat (map (\<lambda>x. concat (map (\<lambda>y. map (\<lambda>z. (viewX - of_nat x, viewY - of_nat y, viewZ - of_nat z))
                                           (filter (\<lambda>z. in_bounds (viewZ - of_nat z) SECTION_Z_SIZE)
                                              [0..<SEARCH_SIZE]))
                                 (filter (\<lambda>y. in_bounds (viewY - of_nat y) SIZE) [0..<SEARCH_SIZE])))
                 (filter (\<lambda>x. in_bounds (viewX - of_nat x) SIZE) [0..<SEARCH_SIZE]))"

text \<open>The walled mover with the shape of the two walls registered as one that paths
  may go through.\<close>

definition door_view :: View where
  "door_view = AddPathThroughShape (Some 1) walled_view"

text \<open>The same, with the shape of the walls in the destination cell \<open>(2, 0, 0)\<close> too.\<close>

definition door_dest_view :: View where
  "door_dest_view = AddPathThroughShape (Some 1) (sample_view
     (\<lambda>c. if c = (0,0,0) then 1
          else if c = (1,0,0) \<or> c = (0,1,0) \<or> c = (2,0,0) then 2 else 0)
     (\<lambda>c. if c = (0,0,0) \<or> c = (1,0,0) \<or> c = (0,1,0) \<or> c = (2,0,0)
          then (1,1,4) else (0,0,0)))"

text \<open>What it is for the shape in the cell \<open>bp\<close> to be solid for a mover with the box \<open>bb\<close>
  that stands in the cell \<open>src\<close>: it is another cell, and the boxes meet.\<close>

definition solid_for :: "View \<Rightarrow> BoundingBox \<Rightarrow> cell option \<Rightarrow> cell \<Rightarrow> bool" where
  "solid_for view bb src bp \<longleftrightarrow> Some bp \<noteq> src \<and> intersect (box (blockPos view bp)) bb"

text \<open>The cell \<open>bp\<close> holds the block that the destination cell of the path holds.\<close>

definition holds_destination_block :: "View \<Rightarrow> cell \<Rightarrow> bool" where
  "holds_destination_block view bp \<longleftrightarrow>
     (case ctx_end (view_context view) of
        None \<Rightarrow> False
      | Some e \<Rightarrow>
          (case (pos (blockPos view e), pos (blockPos view bp)) of
             (Some epos, Some bpos) \<Rightarrow> 0 <s Block epos \<and> Block bpos = Block epos
           | _ \<Rightarrow> False))"

section \<open>Properties of the view\<close>

subsection \<open>Window coordinates\<close>

text \<open>
  Claim C6. \<open>toViewPos\<close> subtracts the window origin, the focal point less 48, from the
  world coordinate; it reports valid exactly when the window-relative X and Y are in
  \<open>[0, 96)\<close> and Z is in \<open>[0, 24)\<close>; and \<open>toWorldPos\<close> takes the view coordinates it
  returned back to the world coordinate (in particular whenever they are valid).
\<close>

theorem toViewPos_window:
  "(case toViewPos view wx wy wz of
      (vx, vy, vz, ok) \<Rightarrow>
        vx = wx - (loader_X (Loader view) - 48)
        \<and> vy = wy - (loader_Y (Loader view) - 48)
        \<and> vz = wz
        \<and> ok = (0 \<le> sint vx \<and> sint vx < 96 \<and> 0 \<le> sint vy \<and> sint vy < 96
                \<and> 0 \<le> sint vz \<and> sint vz < 24)
        \<and> toWorldPos view vx vy vz = (wx, wy, wz))"
proof -
  have h: "go_div SIZE 2 = 48" "go_div 96 2 = 48" by code_simp+
  show ?thesis
    by (auto simp: toViewPos_def toWorldPos_def isValidViewPos_def Let_def h SIZE_def
        SECTION_Z_SIZE_def word_sle_eq word_sless_alt)
qed

theorem toViewPos_window_witness:
  "toViewPos empty_view 4960 5040 3 = (8, 88, 3, True)
   \<and> toWorldPos empty_view 8 88 3 = (4960, 5040, 3)
   \<and> toViewPos empty_view 4951 5000 0 = (-1, 48, 0, False)
   \<and> toViewPos empty_view 5000 5000 24 = (48, 48, 24, False)"
proof -
  have a: "toViewPos empty_view 4960 5040 3 = (8, 88, 3, True)"
    and b: "toViewPos empty_view 4951 5000 0 = (-1, 48, 0, False)"
    and c: "toViewPos empty_view 5000 5000 24 = (48, 48, 24, False)"
    by code_simp+
  from toViewPos_window [where view = empty_view and wx = 4960 and wy = 5040 and wz = 3] a b c
  show ?thesis by simp
qed

subsection \<open>GetBlocker with an empty start cell\<close>

text \<open>
  Claim C10. When the start cell of the path-finding context holds no shape (the
  \<open>Block\<close> of its position is 0), \<open>GetBlocker\<close> returns nil for every target: it neither
  searches the grid nor fails.
\<close>

theorem GetBlocker_empty_start:
  assumes "ctx_start (view_context view) = Some src"
    and "pos (blockPos view src) = Some p"
    and "Block p = 0"
  shows "GetBlocker Shapes view toWorldX toWorldY toWorldZ = Inr None"
  using assms by (simp add: GetBlocker_def)

theorem GetBlocker_empty_start_witness:
  "ctx_start (view_context probing_view) = Some (48, 48, 0)
   \<and> pos (blockPos probing_view (48, 48, 0)) = Some \<lparr>Block = 0\<rparr>
   \<and> Block \<lparr>Block = 0\<rparr> = 0
   \<and> pos (blockPos probing_view (49, 48, 0)) = Some \<lparr>Block = 2\<rparr>
   \<and> GetBlocker [] probing_view 5001 5000 0 = Inr None"
proof -
  have a: "ctx_start (view_context probing_view) = Some (48, 48, 0)"
    and b: "pos (blockPos probing_view (48, 48, 0)) = Some \<lparr>Block = 0\<rparr>"
    and c: "Block \<lparr>Block = 0\<rparr> = 0"
    and d: "pos (blockPos probing_view (49, 48, 0)) = Some \<lparr>Block = 2\<rparr>"
    by (simp_all add: probing_view_def sample_view_def)
  from GetBlocker_empty_start [OF a b c, of "[]" 5001 5000 0] a b c d show ?thesis by simp
qed

subsection \<open>The heuristic\<close>

text \<open>What the three lines of \<open>heuristic\<close> compute: on each axis, the difference of the
  two cells plus the sum of the two half widths.\<close>

lemma heuristic_formula:
  assumes "startBox (view_context view) = Some sb" and "endBox (view_context view) = Some eb"
  shows "heuristic view pos0 pos1 =
     Inr (AbsInt (bp_x (blockPos view pos1) - bp_x (blockPos view pos0)
                  + (go_div (box_W sb) 2 + go_div (box_W eb) 2))
        + AbsInt (bp_y (blockPos view pos1) - bp_y (blockPos view pos0)
                  + (go_div (box_W sb) 2 + go_div (box_W eb) 2))
        + AbsInt (bp_z (blockPos view pos1) - bp_z (blockPos view pos0)
                  + (go_div (box_W sb) 2 + go_div (box_W eb) 2)))"
  using assms by (simp add: heuristic_def Let_def algebra_simps)

text \<open>
  Claim C9 says that the heuristic is the Manhattan distance between the neighbour and
  the goal, each moved by half the width of its box. The code adds both half widths to
  the difference instead of subtracting the neighbour's: in the empty window, with
  boxes of width 2, the neighbour \<open>(47, 48, 0)\<close> of the start and the goal \<open>(51, 48, 0)\<close>
  are at distance 4 between centres, and the heuristic assigned to the neighbour at its
  first visit is 10.
\<close>

theorem heuristic_adds_both_offsets:
  "heuristic pathing_view (47, 48, 0) (51, 48, 0) = Inr 10
   \<and> centre_distance pathing_view (47, 48, 0) (51, 48, 0) = Inr 4
   \<and> map_sum id (\<lambda>(v, ol). (pn_h (pathNode (blockPos v (47, 48, 0))), ol))
        (visit_neighbor pathing_view (48, 48, 0) (47, 48, 0) []) = Inr (10, [(47, 48, 0)])"
  by code_simp

subsection \<open>The two passes of FindPath\<close>

lemma set_pathNode_context [simp]:
  "view_context (set_pathNode view n upd) = view_context view"
  by (simp add: set_pathNode_def)

lemma getBlockerWithCache_context:
  assumes "getBlockerWithCache Shapes view node = Inr (b, view')"
  shows "view_context view' = view_context view"
  using assms
  by (auto simp: getBlockerWithCache_def Let_def split: if_splits sum.splits)

lemma dropDown_context:
  "dropDown Shapes view x y z = Inr (r, view') \<Longrightarrow> view_context view' = view_context view"
proof (induction Shapes view x y z rule: dropDown.induct)
  case (1 Shapes view x y z)
  show ?case
  proof (cases "0 <s z")
    case False
    with "1.prems" show ?thesis by (simp add: dropDown.simps [of Shapes view x y z])
  next
    case True
    from "1.prems" True obtain below b v1 where
      bl: "blockPos_at x y (z - 1) = Inr below"
      and g: "getBlockerWithCache Shapes view below = Inr (b, v1)"
      by (auto simp: dropDown.simps [of Shapes view x y z] split: sum.splits)
    note v1 = getBlockerWithCache_context [OF g]
    show ?thesis
    proof (cases b)
      case (Some s)
      with "1.prems" True bl g v1 show ?thesis
        by (simp add: dropDown.simps [of Shapes view x y z])
    next
      case None
      with "1.prems" True bl g have "dropDown Shapes v1 x y (z - 1) = Inr (r, view')"
        by (simp add: dropDown.simps [of Shapes view x y z])
      from "1.IH" [OF True bl g _ None this] v1 show ?thesis by simp
    qed
  qed
qed

lemma same_z_or_step_up_context:
  assumes "same_z_or_step_up Shapes view x y z = Inr (r, view')"
  shows "view_context view' = view_context view"
proof -
  from assms obtain n b v2 where n: "blockPos_at x y z = Inr n"
    and g: "getBlockerWithCache Shapes view n = Inr (b, v2)"
    by (auto simp: same_z_or_step_up_def split: sum.splits)
  note a = getBlockerWithCache_context [OF g]
  show ?thesis
  proof (cases b)
    case None
    with assms n g a show ?thesis by (auto simp: same_z_or_step_up_def)
  next
    case (Some s)
    with assms n g obtain u b3 v3 where u: "blockPos_at x y (z + 1) = Inr u"
      and g3: "getBlockerWithCache Shapes v2 u = Inr (b3, v3)"
      by (auto simp: same_z_or_step_up_def split: sum.splits)
    note a3 = getBlockerWithCache_context [OF g3]
    from assms n g Some u g3 a a3 show ?thesis
      by (cases b3) (auto simp: same_z_or_step_up_def)
  qed
qed

lemma tryMove_context:
  assumes "tryMove Shapes view x y z = Inr (r, view')"
  shows "view_context view' = view_context view"
proof -
  from assms obtain z1 st v1 rej where d: "dropDown Shapes view x y z = Inr ((z1, st), v1)"
    and rj: "rejects_landing Shapes v1 st = Inr rej"
    by (auto simp: tryMove_def split: sum.splits)
  note a = dropDown_context [OF d]
  show ?thesis
  proof (cases "rej \<or> z1 <s z")
    case True
    with assms d rj a show ?thesis
      by (auto simp: tryMove_def split: sum.splits if_splits bool.splits)
  next
    case False
    with assms d rj have "same_z_or_step_up Shapes v1 x y z = Inr (r, view')"
      by (simp add: tryMove_def)
    from same_z_or_step_up_context [OF this] a show ?thesis by simp
  qed
qed

lemma try_append_context:
  assumes "try_append Shapes node guard dx dy acc = Inr (ret', view')"
  obtains ret view where "acc = Inr (ret, view)" "view_context view' = view_context view"
proof -
  from assms obtain ret view where acc: "acc = Inr (ret, view)"
    by (cases acc) (auto simp: try_append_def)
  have "view_context view' = view_context view"
    using assms acc
    by (auto simp: try_append_def tryInDir_def Let_def split: if_splits sum.splits option.splits
        dest!: tryMove_context)
  with acc that show ?thesis by blast
qed

lemma astarNeighbors_context:
  assumes "astarNeighbors Shapes view node = Inr (ns, view')"
  shows "view_context view' = view_context view"
proof -
  let ?nx = "bp_x (blockPos view node)" and ?ny = "bp_y (blockPos view node)"
  from assms have a4: "try_append Shapes node (?ny + 1 <s SIZE) 0 1
        (try_append Shapes node (0 \<le>s ?ny - 1) 0 (-1)
          (try_append Shapes node (?nx + 1 <s SIZE) 1 0
            (try_append Shapes node (0 \<le>s ?nx - 1) (-1) 0 (Inr ([], view))))) = Inr (ns, view')"
    by (simp add: astarNeighbors_def Let_def)
  from a4 obtain r3 v3 where a3: "try_append Shapes node (0 \<le>s ?ny - 1) 0 (-1)
          (try_append Shapes node (?nx + 1 <s SIZE) 1 0
            (try_append Shapes node (0 \<le>s ?nx - 1) (-1) 0 (Inr ([], view)))) = Inr (r3, v3)"
    and p4: "view_context view' = view_context v3"
    by (rule try_append_context)
  from a3 obtain r2 v2 where a2: "try_append Shapes node (?nx + 1 <s SIZE) 1 0
            (try_append Shapes node (0 \<le>s ?nx - 1) (-1) 0 (Inr ([], view))) = Inr (r2, v2)"
    and p3: "view_context v3 = view_context v2"
    by (rule try_append_context)
  from a2 obtain r1 v1 where a1: "try_append Shapes node (0 \<le>s ?nx - 1) (-1) 0 (Inr ([], view)) = Inr (r1, v1)"
    and p2: "view_context v2 = view_context v1"
    by (rule try_append_context)
  from a1 obtain r0 v0 where a0: "(Inr ([], view) :: error + cell list \<times> View) = Inr (r0, v0)"
    and p1: "view_context v1 = view_context v0"
    by (rule try_append_context)
  from a0 have "v0 = view" by simp
  with p1 p2 p3 p4 show ?thesis by simp
qed

lemma visit_neighbor_context:
  assumes "visit_neighbor view cur n ol = Inr (view', ol')"
  shows "view_context view' = view_context view"
  using assms
  by (auto simp: visit_neighbor_def Let_def split: if_splits option.splits sum.splits)

lemma visit_neighbors_context:
  assumes "visit_neighbors view cur ns ol = Inr (view', ol')"
  shows "view_context view' = view_context view"
  using assms
proof (induction ns arbitrary: view ol)
  case Nil
  then show ?case by simp
next
  case (Cons n ns)
  from Cons.prems obtain v1 ol1 where
    s: "visit_neighbor view cur n ol = Inr (v1, ol1)"
    and r: "visit_neighbors v1 cur ns ol1 = Inr (view', ol')"
    by (auto split: sum.splits)
  from visit_neighbor_context [OF s] Cons.IH [OF r] show ?case by simp
qed

lemma astar_turn_context:
  assumes "astar_turn Shapes view openList = t"
  shows "(\<forall>view' ol'. t = Next view' ol' \<longrightarrow> context_but_startBox view' = context_but_startBox view)
       \<and> (\<forall>view' steps. t = Return steps view' \<longrightarrow> context_but_startBox view' = context_but_startBox view)"
  using assms
  by (auto simp: astar_turn_def Let_def context_but_startBox_def
      split: option.splits sum.splits if_splits prod.splits
      dest!: astarNeighbors_context visit_neighbors_context)

lemma astar_loop_Nil: "astar_loop Shapes view [] = Inr (None, view)"
  by (simp add: astar_loop.simps)

lemma astar_loop_turn:
  "openList \<noteq> [] \<Longrightarrow>
   astar_loop Shapes view openList =
     (case astar_turn Shapes view openList of
        Return steps view' \<Rightarrow> Inr (Some steps, view')
      | Panic e \<Rightarrow> Inl e
      | Next view' openList' \<Rightarrow> astar_loop Shapes view' openList')"
  by (subst astar_loop.simps) simp

lemma astar_loop_context:
  "astar_loop Shapes view openList = Inr (r, view')
     \<Longrightarrow> context_but_startBox view' = context_but_startBox view"
proof (induction Shapes view openList rule: astar_loop.induct)
  case (1 Shapes view openList)
  show ?case
  proof (cases "openList = []")
    case True
    with "1.prems" show ?thesis by (simp add: astar_loop_Nil astar_loop_turn)
  next
    case False
    show ?thesis
    proof (cases "astar_turn Shapes view openList")
      case (Return steps v1)
      with "1.prems" False astar_turn_context [OF Return] show ?thesis
        by (simp add: astar_loop_Nil astar_loop_turn)
    next
      case (Panic e)
      with "1.prems" False show ?thesis
        by (simp add: astar_loop_Nil astar_loop_turn)
    next
      case (Next v1 ol1)
      with "1.prems" False have "astar_loop Shapes v1 ol1 = Inr (r, view')"
        by (simp add: astar_loop_Nil astar_loop_turn)
      from "1.IH" [OF False Next this] astar_turn_context [OF Next] show ?thesis by simp
    qed
  qed
qed

lemma resetPathFind_context [simp]: "view_context (resetPathFind view) = view_context view"
  by (simp add: resetPathFind_def)

lemma findPath_context:
  assumes "findPath Shapes view = Inr (r, view')"
  shows "context_but_startBox view' = context_but_startBox view"
proof -
  from assms obtain start where "astar_loop Shapes (resetPathFind view) [start] = Inr (r, view')"
    by (auto simp: findPath_def Let_def split: option.splits)
  from astar_loop_context [OF this] show ?thesis by (simp add: context_but_startBox_def)
qed

lemma with_pathThrough_simps [simp]:
  "blockPos (with_pathThrough P view) = blockPos view"
  "Loader (with_pathThrough P view) = Loader view"
  "isPathing (view_context (with_pathThrough P view)) = isPathing (view_context view)"
  "isFlying (view_context (with_pathThrough P view)) = isFlying (view_context view)"
  "usePathThrough (view_context (with_pathThrough P view)) = usePathThrough (view_context view)"
  "ctx_start (view_context (with_pathThrough P view)) = ctx_start (view_context view)"
  "ctx_end (view_context (with_pathThrough P view)) = ctx_end (view_context view)"
  "startBox (view_context (with_pathThrough P view)) = startBox (view_context view)"
  "endBox (view_context (with_pathThrough P view)) = endBox (view_context view)"
  by (simp_all add: with_pathThrough_def)

lemma with_pathThrough_set_pathNode:
  "set_pathNode (with_pathThrough P view) n upd = with_pathThrough P (set_pathNode view n upd)"
  by (simp add: set_pathNode_def with_pathThrough_def)

lemma with_pathThrough_startBox:
  "(with_pathThrough P view)\<lparr>view_context := (view_context (with_pathThrough P view))\<lparr>startBox := b\<rparr>\<rparr>
     = with_pathThrough P (view\<lparr>view_context := (view_context view)\<lparr>startBox := b\<rparr>\<rparr>)"
  by (simp add: with_pathThrough_def)

lemma blocks_closed_doors:
  assumes "\<not> usePathThrough (view_context view)"
  shows "blocks Shapes (with_pathThrough P view) bb src bp = blocks Shapes view bb src bp"
  using assms by (simp add: blocks_def Let_def split: option.splits)

lemma search_loop_cong:
  assumes "blockPos v1 = blockPos v2" and "\<And>c. f1 c = f2 c"
  shows "search_loop v1 f1 cs = search_loop v2 f2 cs"
  using assms by (induction cs) (auto split: option.splits sum.splits bool.splits)

lemma toViewPos_with_pathThrough [simp]:
  "toViewPos (with_pathThrough P view) = toViewPos view"
  by (simp add: toViewPos_def fun_eq_iff)

lemma toWorldPos_with_pathThrough [simp]:
  "toWorldPos (with_pathThrough P view) = toWorldPos view"
  by (simp add: toWorldPos_def fun_eq_iff)

lemma GetBlocker_closed_doors:
  assumes "\<not> usePathThrough (view_context view)"
  shows "GetBlocker Shapes (with_pathThrough P view) x y z = GetBlocker Shapes view x y z"
proof -
  have "getBlockerAt Shapes (with_pathThrough P view) a b c bb src
        = getBlockerAt Shapes view a b c bb src" for a b c bb src
    unfolding getBlockerAt_def search_def Let_def
    by (rule search_loop_cong) (simp_all add: blocks_closed_doors [OF assms])
  then show ?thesis by (simp add: GetBlocker_def split: option.splits prod.splits)
qed

lemma lift_view_simps [simp]:
  "lift_view f (Inl e) = Inl e"
  "lift_view f (Inr (a, v)) = Inr (a, f v)"
  by (simp_all add: lift_view_def)

lemma getBlockerWithCache_closed_doors:
  assumes "\<not> usePathThrough (view_context view)"
  shows "getBlockerWithCache Shapes (with_pathThrough P view) node
         = lift_view (with_pathThrough P) (getBlockerWithCache Shapes view node)"
  by (simp add: getBlockerWithCache_def Let_def GetBlocker_closed_doors [OF assms]
      with_pathThrough_set_pathNode split: sum.splits)

lemma dropDown_closed_doors:
  "\<not> usePathThrough (view_context view) \<Longrightarrow>
   dropDown Shapes (with_pathThrough P view) x y z
     = lift_view (with_pathThrough P) (dropDown Shapes view x y z)"
proof (induction Shapes view x y z rule: dropDown.induct)
  case (1 Shapes view x y z)
  note g = getBlockerWithCache_closed_doors [OF "1.prems", of Shapes P]
  show ?case
  proof (cases "0 <s z")
    case False
    then show ?thesis
      by (simp add: dropDown.simps [of Shapes view x y z]
          dropDown.simps [of Shapes "with_pathThrough P view" x y z])
  next
    case True
    show ?thesis
    proof (cases "blockPos_at x y (z - 1)")
      case (Inl e)
      with True show ?thesis
        by (simp add: dropDown.simps [of Shapes view x y z]
            dropDown.simps [of Shapes "with_pathThrough P view" x y z])
    next
      case (Inr below)
      show ?thesis
      proof (cases "getBlockerWithCache Shapes view below")
        case (Inl e)
        with True Inr g [of below] show ?thesis
          by (simp add: dropDown.simps [of Shapes view x y z]
              dropDown.simps [of Shapes "with_pathThrough P view" x y z])
      next
        case r: (Inr bv)
        obtain b v1 where bv: "bv = (b, v1)" by (cases bv)
        from getBlockerWithCache_context [OF r [unfolded bv]] "1.prems"
        have nu: "\<not> usePathThrough (view_context v1)" by simp
        show ?thesis
        proof (cases b)
          case (Some s)
          with True Inr r bv g [of below] show ?thesis
            by (simp add: dropDown.simps [of Shapes view x y z]
                dropDown.simps [of Shapes "with_pathThrough P view" x y z])
        next
          case None
          from "1.IH" [OF True Inr r [unfolded bv] _ None nu]
          have "dropDown Shapes (with_pathThrough P v1) x y (z - 1)
                = lift_view (with_pathThrough P) (dropDown Shapes v1 x y (z - 1))" by simp
          with True Inr r bv None g [of below] show ?thesis
            by (simp add: dropDown.simps [of Shapes view x y z]
                dropDown.simps [of Shapes "with_pathThrough P view" x y z])
        qed
      qed
    qed
  qed
qed

lemma rejects_landing_closed_doors [simp]:
  "rejects_landing Shapes (with_pathThrough P view) st = rejects_landing Shapes view st"
  by (simp add: rejects_landing_def split: option.splits)

lemma same_z_or_step_up_closed_doors:
  assumes "\<not> usePathThrough (view_context view)"
  shows "same_z_or_step_up Shapes (with_pathThrough P view) x y z
         = lift_view (with_pathThrough P) (same_z_or_step_up Shapes view x y z)"
proof (cases "blockPos_at x y z")
  case (Inl e)
  then show ?thesis by (simp add: same_z_or_step_up_def)
next
  case n: (Inr n)
  note g1 = getBlockerWithCache_closed_doors [OF assms, of Shapes P n]
  show ?thesis
  proof (cases "getBlockerWithCache Shapes view n")
    case (Inl e)
    with n g1 show ?thesis by (simp add: same_z_or_step_up_def)
  next
    case (Inr bv)
    obtain b v2 where bv: "bv = (b, v2)" by (cases bv)
    from getBlockerWithCache_context [OF Inr [unfolded bv]] assms
    have nu2: "\<not> usePathThrough (view_context v2)" by simp
    show ?thesis
    proof (cases b)
      case None
      with n Inr bv g1 show ?thesis by (simp add: same_z_or_step_up_def)
    next
      case (Some s)
      show ?thesis
      proof (cases "blockPos_at x y (z + 1)")
        case (Inl e)
        with n Inr bv Some g1 show ?thesis by (simp add: same_z_or_step_up_def)
      next
        case u: (Inr u)
        note g2 = getBlockerWithCache_closed_doors [OF nu2, of Shapes P u]
        show ?thesis
        proof (cases "getBlockerWithCache Shapes v2 u")
          case (Inl e)
          with n Inr bv Some u g1 g2 show ?thesis by (simp add: same_z_or_step_up_def)
        next
          case r3: (Inr bv3)
          obtain b3 v3 where bv3: "bv3 = (b3, v3)" by (cases bv3)
          with n Inr bv Some u r3 g1 g2 show ?thesis
            by (cases b3) (simp_all add: same_z_or_step_up_def)
        qed
      qed
    qed
  qed
qed

lemma tryMove_closed_doors:
  assumes "\<not> usePathThrough (view_context view)"
  shows "tryMove Shapes (with_pathThrough P view) x y z
         = lift_view (with_pathThrough P) (tryMove Shapes view x y z)"
proof (cases "dropDown Shapes view x y z")
  case (Inl e)
  then show ?thesis
    by (simp add: tryMove_def dropDown_closed_doors [OF assms])
next
  case (Inr r)
  obtain z1 st v1 where r: "r = ((z1, st), v1)" by (cases r) auto
  from dropDown_context [OF Inr [unfolded r]] assms
  have nu1: "\<not> usePathThrough (view_context v1)" by simp
  have d: "dropDown Shapes (with_pathThrough P view) x y z = Inr ((z1, st), with_pathThrough P v1)"
    by (simp add: dropDown_closed_doors [OF assms] Inr r)
  show ?thesis
  proof (cases "rejects_landing Shapes v1 st")
    case (Inl e)
    then show ?thesis by (simp add: tryMove_def d Inr r)
  next
    case rj: (Inr rej)
    show ?thesis
    proof (cases "rej \<or> z1 <s z")
      case True
      with rj show ?thesis
        by (auto simp: tryMove_def d Inr r split: sum.splits bool.splits)
    next
      case False
      with rj show ?thesis
        by (simp add: tryMove_def d Inr r same_z_or_step_up_closed_doors [OF nu1])
    qed
  qed
qed

lemma try_append_closed_doors:
  assumes "\<And>ret view. acc = Inr (ret, view) \<Longrightarrow> \<not> usePathThrough (view_context view)"
  shows "try_append Shapes node guard dx dy (lift_view (with_pathThrough P) acc)
         = lift_view (with_pathThrough P) (try_append Shapes node guard dx dy acc)"
proof (cases acc)
  case (Inl e)
  then show ?thesis by (simp add: try_append_def)
next
  case (Inr rv)
  obtain ret view where rv: "rv = (ret, view)" by (cases rv)
  from assms Inr rv have nu: "\<not> usePathThrough (view_context view)" by simp
  show ?thesis
    by (simp add: Inr rv try_append_def tryInDir_def Let_def tryMove_closed_doors [OF nu]
        split: sum.splits option.splits)
qed

lemma try_append_flag:
  assumes "\<And>ret view. acc = Inr (ret, view) \<Longrightarrow> \<not> usePathThrough (view_context view)"
    and "try_append Shapes node guard dx dy acc = Inr (ret', view')"
  shows "\<not> usePathThrough (view_context view')"
  using try_append_context [OF assms(2)] assms(1) by metis

lemma astarNeighbors_closed_doors:
  assumes "\<not> usePathThrough (view_context view)"
  shows "astarNeighbors Shapes (with_pathThrough P view) node
         = lift_view (with_pathThrough P) (astarNeighbors Shapes view node)"
proof -
  let ?nx = "bp_x (blockPos view node)" and ?ny = "bp_y (blockPos view node)"
  let ?a0 = "Inr ([], view) :: error + cell list \<times> View"
  let ?a1 = "try_append Shapes node (0 \<le>s ?nx - 1) (-1) 0 ?a0"
  let ?a2 = "try_append Shapes node (?nx + 1 <s SIZE) 1 0 ?a1"
  let ?a3 = "try_append Shapes node (0 \<le>s ?ny - 1) 0 (-1) ?a2"
  have f0: "\<And>ret v. ?a0 = Inr (ret, v) \<Longrightarrow> \<not> usePathThrough (view_context v)"
    using assms by simp
  have f1: "\<And>ret v. ?a1 = Inr (ret, v) \<Longrightarrow> \<not> usePathThrough (view_context v)"
    by (rule try_append_flag [OF f0]) simp_all
  have f2: "\<And>ret v. ?a2 = Inr (ret, v) \<Longrightarrow> \<not> usePathThrough (view_context v)"
    by (rule try_append_flag [OF f1]) simp_all
  have f3: "\<And>ret v. ?a3 = Inr (ret, v) \<Longrightarrow> \<not> usePathThrough (view_context v)"
    by (rule try_append_flag [OF f2]) simp_all
  have "Inr ([], with_pathThrough P view) = lift_view (with_pathThrough P) ?a0" by simp
  then show ?thesis
    unfolding astarNeighbors_def Let_def with_pathThrough_simps
    by (simp only: try_append_closed_doors [OF f0] try_append_closed_doors [OF f1]
        try_append_closed_doors [OF f2] try_append_closed_doors [OF f3])
qed

lemma heuristic_with_pathThrough [simp]:
  "heuristic (with_pathThrough P view) pos0 pos1 = heuristic view pos0 pos1"
  by (simp add: heuristic_def split: option.splits)

text \<open>\<open>generatePath\<close> reads the grid and the focal point only.\<close>

lemma generatePath_loop_Some_all:
  assumes "generatePath_loop v1 c ret = Some y"
  shows "\<forall>v2. blockPos v2 = blockPos v1 \<and> Loader v2 = Loader v1
              \<longrightarrow> generatePath_loop v2 c ret = Some y"
  using assms
proof (induction rule: generatePath_loop.raw_induct [rotated 1, consumes 1])
  case (1 gp view c ret y)
  show ?case
  proof (intro allI impI)
    fix v2 :: View
    assume eq: "blockPos v2 = blockPos view \<and> Loader v2 = Loader view"
    then have w: "toWorldPos v2 = toWorldPos view"
      by (simp add: toWorldPos_def fun_eq_iff)
    show "generatePath_loop v2 c ret = Some y"
    proof (cases "parent (pathNode (blockPos view c))")
      case None
      with "1.hyps" eq show ?thesis
        by (subst generatePath_loop.simps) simp
    next
      case (Some p)
      with "1.hyps" have "gp view p (ret @ [toWorldPos view (bp_x (blockPos view c))
                      (bp_y (blockPos view c)) (bp_z (blockPos view c))]) = Some y"
        by simp
      from "1.IH" [OF this] eq have "generatePath_loop v2 p
          (ret @ [toWorldPos view (bp_x (blockPos view c))
                      (bp_y (blockPos view c)) (bp_z (blockPos view c))]) = Some y"
        by simp
      with Some eq w show ?thesis
        by (subst generatePath_loop.simps) simp
    qed
  qed
qed

lemma generatePath_loop_Some_cong:
  assumes "generatePath_loop v1 c ret = Some y"
    and "blockPos v2 = blockPos v1" and "Loader v2 = Loader v1"
  shows "generatePath_loop v2 c ret = Some y"
  using generatePath_loop_Some_all [OF assms(1)] assms(2,3) by simp

lemma generatePath_loop_cong:
  assumes "blockPos v2 = blockPos v1" and "Loader v2 = Loader v1"
  shows "generatePath_loop v2 c ret = generatePath_loop v1 c ret"
proof (cases "generatePath_loop v1 c ret")
  case (Some y)
  from generatePath_loop_Some_cong [OF Some assms] Some show ?thesis by simp
next
  case None
  show ?thesis
  proof (cases "generatePath_loop v2 c ret")
    case None
    with \<open>generatePath_loop v1 c ret = None\<close> show ?thesis by simp
  next
    case (Some y)
    from generatePath_loop_Some_cong [OF Some] assms have "generatePath_loop v1 c ret = Some y"
      by simp
    with None show ?thesis by simp
  qed
qed

lemma generatePath_cong:
  assumes "blockPos v2 = blockPos v1" and "Loader v2 = Loader v1"
  shows "generatePath v2 c = generatePath v1 c"
  by (simp add: generatePath_def generatePath_loop_cong [OF assms])

lemma lift_fst_simps [simp]:
  "lift_fst f (Inl e) = Inl e"
  "lift_fst f (Inr (v, a)) = Inr (f v, a)"
  by (simp_all add: lift_fst_def)

lemma visit_neighbor_closed_doors:
  "visit_neighbor (with_pathThrough P view) cur n ol
     = lift_fst (with_pathThrough P) (visit_neighbor view cur n ol)"
  by (simp add: visit_neighbor_def Let_def with_pathThrough_set_pathNode
      split: option.splits sum.splits)

lemma visit_neighbors_closed_doors:
  "visit_neighbors (with_pathThrough P view) cur ns ol
     = lift_fst (with_pathThrough P) (visit_neighbors view cur ns ol)"
proof (induction ns arbitrary: view ol)
  case Nil
  then show ?case by simp
next
  case (Cons n ns)
  show ?case
  proof (cases "visit_neighbor view cur n ol")
    case (Inl e)
    then show ?thesis by (simp add: visit_neighbor_closed_doors)
  next
    case (Inr r)
    obtain v1 ol1 where "r = (v1, ol1)" by (cases r)
    with Inr Cons.IH [of v1 ol1] show ?thesis by (simp add: visit_neighbor_closed_doors)
  qed
qed

lemma lowest_f_with_pathThrough [simp]:
  "lowest_f (with_pathThrough P view) ol is low = lowest_f view ol is low"
  by (induction "is" arbitrary: low) simp_all

lemma astar_turn_closed_doors:
  assumes "\<not> usePathThrough (view_context view)"
  shows "astar_turn Shapes (with_pathThrough P view) openList
         = map_turn (with_pathThrough P) (astar_turn Shapes view openList)"
proof (cases "startBox (view_context view)")
  case None
  then show ?thesis by (simp add: astar_turn_def Let_def)
next
  case sb: (Some sb)
  show ?thesis
  proof (cases "endBox (view_context view)")
    case None
    with sb show ?thesis by (simp add: astar_turn_def Let_def)
  next
    case eb: (Some eb)
    let ?cur = "openList ! lowest_f view openList [0..<length openList] 0"
    let ?sb' = "SetPos sb (bp_x (blockPos view ?cur)) (bp_y (blockPos view ?cur))
                  (bp_z (blockPos view ?cur))"
    let ?v1 = "view\<lparr>view_context := (view_context view)\<lparr>startBox := Some ?sb'\<rparr>\<rparr>"
    let ?v2 = "set_pathNode ?v1 ?cur (\<lambda>pn. pn\<lparr>closed := True\<rparr>)"
    have w1: "(with_pathThrough P view)\<lparr>view_context :=
                 (view_context (with_pathThrough P view))\<lparr>startBox := Some ?sb'\<rparr>\<rparr>
              = with_pathThrough P ?v1"
      by (rule with_pathThrough_startBox)
    have nu2: "\<not> usePathThrough (view_context ?v2)" using assms by simp
    have gp: "generatePath (with_pathThrough P ?v1) ?cur = generatePath ?v1 ?cur"
      by (rule generatePath_cong) simp_all
    note n = astarNeighbors_closed_doors [OF nu2, of Shapes P ?cur]
    show ?thesis
    proof (cases "intersect ?sb' eb")
      case True
      with sb eb show ?thesis
        by (simp add: astar_turn_def Let_def w1 gp split: sum.splits)
    next
      case False
      show ?thesis
      proof (cases "astarNeighbors Shapes ?v2 ?cur")
        case (Inl e)
        with sb eb False n show ?thesis
          by (simp add: astar_turn_def Let_def w1 with_pathThrough_set_pathNode)
      next
        case (Inr r)
        obtain ns v3 where r: "r = (ns, v3)" by (cases r)
        with sb eb False n Inr show ?thesis
          by (simp add: astar_turn_def Let_def w1 with_pathThrough_set_pathNode
              visit_neighbors_closed_doors split: sum.splits)
      qed
    qed
  qed
qed

lemma astar_turn_flag:
  assumes "astar_turn Shapes view openList = Next view' openList'"
  shows "usePathThrough (view_context view') = usePathThrough (view_context view)"
proof -
  from astar_turn_context [OF assms]
  have "context_but_startBox view' = context_but_startBox view" by simp
  then have "usePathThrough (context_but_startBox view') = usePathThrough (context_but_startBox view)"
    by simp
  then show ?thesis by (simp add: context_but_startBox_def)
qed

lemma astar_loop_closed_doors:
  "\<not> usePathThrough (view_context view) \<Longrightarrow>
   astar_loop Shapes (with_pathThrough P view) openList
     = lift_view (with_pathThrough P) (astar_loop Shapes view openList)"
proof (induction Shapes view openList rule: astar_loop.induct)
  case (1 Shapes view openList)
  note t = astar_turn_closed_doors [OF "1.prems", of Shapes P openList]
  show ?case
  proof (cases "openList = []")
    case True
    then show ?thesis by (simp add: astar_loop_Nil)
  next
    case False
    show ?thesis
    proof (cases "astar_turn Shapes view openList")
      case (Return steps v1)
      with False t show ?thesis by (simp add: astar_loop_turn)
    next
      case (Panic e)
      with False t show ?thesis by (simp add: astar_loop_turn)
    next
      case (Next v1 ol1)
      from astar_turn_flag [OF Next] "1.prems"
      have "\<not> usePathThrough (view_context v1)" by simp
      from "1.IH" [OF False Next this] False t Next show ?thesis
        by (simp add: astar_loop_turn)
    qed
  qed
qed

lemma resetPathFind_with_pathThrough:
  "resetPathFind (with_pathThrough P view) = with_pathThrough P (resetPathFind view)"
  by (rule View.equality) (auto simp: resetPathFind_def with_pathThrough_def fun_eq_iff)

lemma findPath_closed_doors:
  assumes "\<not> usePathThrough (view_context view)"
  shows "findPath Shapes (with_pathThrough P view)
         = lift_view (with_pathThrough P) (findPath Shapes view)"
proof -
  have "\<not> usePathThrough (view_context (resetPathFind view))" using assms by simp
  from astar_loop_closed_doors [OF this, of Shapes P] show ?thesis
    by (simp add: findPath_def Let_def resetPathFind_with_pathThrough split: option.splits)
qed

lemma search_loop_Some:
  "search_loop view fx cs = Inr (Some c) \<Longrightarrow> fx c = Inr True"
  by (induction cs) (auto split: if_splits option.splits sum.splits bool.splits)

lemma blocks_open_doors:
  assumes "isPathing (view_context view)" and "usePathThrough (view_context view)"
    and "pos (blockPos view bp) = Some bpos"
    and "Shapes_at Shapes (Block bpos - 1) = Inr shape"
    and "shape \<in> pathThroughShapes (view_context view)"
  shows "blocks Shapes view bb src bp \<noteq> Inr True"
  using assms by (auto simp: blocks_def Let_def split: option.splits if_splits)

lemma GetBlocker_open_doors:
  assumes "isPathing (view_context view)" and "usePathThrough (view_context view)"
    and "GetBlocker Shapes view x y z = Inr (Some c)"
    and "pos (blockPos view c) = Some bpos"
    and "Shapes_at Shapes (Block bpos - 1) = Inr shape"
  shows "shape \<notin> pathThroughShapes (view_context view)"
proof
  assume "shape \<in> pathThroughShapes (view_context view)"
  from blocks_open_doors [OF assms(1,2,4,5) this]
  have nb: "blocks Shapes view bb src c \<noteq> Inr True" for bb src .
  from assms(3) obtain a b d bb src where
    "search_loop view (blocks Shapes view bb src) (search_cells a b d) = Inr (Some c)"
    by (auto simp: GetBlocker_def getBlockerAt_def search_def Let_def
        split: option.splits if_splits prod.splits)
  from search_loop_Some [OF this] nb show False by simp
qed

lemma findPath_result_closed_doors:
  assumes "\<not> usePathThrough (view_context view)"
  shows "map_sum id fst (findPath Shapes (with_pathThrough P view))
         = map_sum id fst (findPath Shapes view)"
  by (cases "findPath Shapes view") (auto simp: findPath_closed_doors [OF assms])

lemma isValidViewPos_in_bounds:
  "isValidViewPos x y z \<longleftrightarrow> in_bounds x SIZE \<and> in_bounds y SIZE \<and> in_bounds z SECTION_Z_SIZE"
  by (auto simp: isValidViewPos_def in_bounds_def word_sle_eq word_sless_alt)

lemma search_loop_filter_valid:
  "search_loop view fx (filter (\<lambda>c. isValidViewPos (fst c) (fst (snd c)) (snd (snd c))) cs)
   = search_loop view fx cs"
  by (induction cs) (auto split: option.splits sum.splits bool.splits)

lemma filter_product_map:
  "filter (\<lambda>c. A (fst c) \<and> B (fst (snd c)) \<and> C (snd (snd c)))
     (concat (map (\<lambda>i. concat (map (\<lambda>j. map (\<lambda>k. (f i, g j, h k)) ks) js)) is))
   = concat (map (\<lambda>i. concat (map (\<lambda>j. map (\<lambda>k. (f i, g j, h k)) (filter (\<lambda>k. C (h k)) ks))
                                     (filter (\<lambda>j. B (g j)) js)))
                 (filter (\<lambda>i. A (f i)) is))"
proof -
  have inner: "filter (\<lambda>c. A (fst c) \<and> B (fst (snd c)) \<and> C (snd (snd c)))
        (map (\<lambda>k. (f i, g j, h k)) ks)
      = (if A (f i) \<and> B (g j) then map (\<lambda>k. (f i, g j, h k)) (filter (\<lambda>k. C (h k)) ks) else [])"
    for i j
    by (induction ks) simp_all
  have mid: "filter (\<lambda>c. A (fst c) \<and> B (fst (snd c)) \<and> C (snd (snd c)))
        (concat (map (\<lambda>j. map (\<lambda>k. (f i, g j, h k)) ks) js))
      = (if A (f i) then concat (map (\<lambda>j. map (\<lambda>k. (f i, g j, h k)) (filter (\<lambda>k. C (h k)) ks))
                                     (filter (\<lambda>j. B (g j)) js)) else [])"
    for i
    by (induction js) (simp_all add: inner)
  show ?thesis
    by (induction "is") (simp_all add: mid)
qed

lemma valid_search_cells_filter:
  "valid_search_cells viewX viewY viewZ
   = filter (\<lambda>c. isValidViewPos (fst c) (fst (snd c)) (snd (snd c)))
       (search_cells viewX viewY viewZ)"
  unfolding valid_search_cells_def search_cells_def isValidViewPos_in_bounds
  by (rule filter_product_map [symmetric])

lemma search_valid_cells [code]:
  "search view viewX viewY viewZ fx = search_loop view fx (valid_search_cells viewX viewY viewZ)"
  by (simp add: search_def valid_search_cells_filter search_loop_filter_valid)

subsection \<open>The search returns\<close>

text \<open>The part of a path node that \<open>generatePath\<close> depends on, for every cell: whether the
  node is closed, and its parent.\<close>

definition links :: "View \<Rightarrow> cell \<Rightarrow> bool \<times> cell option" where
  "links view c = (closed (pathNode (blockPos view c)), parent (pathNode (blockPos view c)))"

text \<open>A cell from which the parent links lead through closed cells to a cell without
  parent.\<close>

inductive rooted :: "View \<Rightarrow> cell \<Rightarrow> bool" where
  root: "parent (pathNode (blockPos view c)) = None \<Longrightarrow> rooted view c"
| step: "parent (pathNode (blockPos view c)) = Some p \<Longrightarrow> closed (pathNode (blockPos view p))
         \<Longrightarrow> rooted view p \<Longrightarrow> rooted view c"

lemma links_set_pathNode:
  assumes "\<And>pn. closed (upd pn) = closed pn" and "\<And>pn. parent (upd pn) = parent pn"
  shows "links (set_pathNode view n upd) = links view"
  using assms by (auto simp: links_def set_pathNode_def fun_eq_iff)

lemma links_context [simp]:
  "links (view\<lparr>view_context := ctx\<rparr>) = links view"
  by (simp add: links_def fun_eq_iff)

lemma rooted_links:
  assumes "rooted v c" and "links v' = links v"
  shows "rooted v' c"
  using assms
proof (induction rule: rooted.induct)
  case (root view c)
  from root.prems have "links v' c = links view c" by simp
  with root.hyps show ?case by (auto simp: links_def intro: rooted.root)
next
  case (step view c p)
  from step.prems have "links v' c = links view c" "links v' p = links view p" by simp_all
  with step.hyps step.IH [OF step.prems] show ?case
    by (auto simp: links_def intro: rooted.step)
qed

lemma rooted_generatePath:
  assumes "rooted view c"
  shows "generatePath_loop view c ret \<noteq> None"
  using assms
proof (induction arbitrary: ret rule: rooted.induct)
  case (root view c)
  then show ?case by (subst generatePath_loop.simps) simp
next
  case (step view c p)
  then show ?case by (subst generatePath_loop.simps) simp
qed

lemma rooted_close:
  assumes "rooted v c"
  shows "rooted (set_pathNode v n (\<lambda>pn. pn\<lparr>closed := True\<rparr>)) c"
  using assms
proof (induction rule: rooted.induct)
  case (root view c)
  then show ?case by (auto simp: set_pathNode_def intro: rooted.root)
next
  case (step view c p)
  have "parent (pathNode (blockPos (set_pathNode view n (\<lambda>pn. pn\<lparr>closed := True\<rparr>)) c)) = Some p"
    using step.hyps(1) by (auto simp: set_pathNode_def)
  moreover have "closed (pathNode (blockPos (set_pathNode view n (\<lambda>pn. pn\<lparr>closed := True\<rparr>)) p))"
    using step.hyps(2) by (auto simp: set_pathNode_def)
  ultimately show ?case using step.IH by (rule rooted.step)
qed

text \<open>Giving an open cell \<open>n\<close> a new path node leaves every other rooted cell rooted.\<close>

lemma rooted_other:
  assumes "rooted v c" and "c \<noteq> n" and "\<not> closed (pathNode (blockPos v n))"
  shows "rooted (set_pathNode v n upd) c"
  using assms
proof (induction rule: rooted.induct)
  case (root view c)
  then show ?case by (auto simp: set_pathNode_def intro: rooted.root)
next
  case (step view c p)
  from step.hyps(2) step.prems(2) have pn: "p \<noteq> n" by auto
  have "parent (pathNode (blockPos (set_pathNode view n upd) c)) = Some p"
    using step.hyps(1) step.prems(1) by (simp add: set_pathNode_def)
  moreover have "closed (pathNode (blockPos (set_pathNode view n upd) p))"
    using step.hyps(2) pn by (simp add: set_pathNode_def)
  moreover have "rooted (set_pathNode view n upd) p"
    by (rule step.IH [OF pn step.prems(2)])
  ultimately show ?case by (rule rooted.step)
qed

lemma rooted_new_parent:
  assumes "rooted v cur" and "closed (pathNode (blockPos v cur))"
    and "\<not> closed (pathNode (blockPos v n))"
    and "\<And>pn. parent (upd pn) = Some cur"
  shows "rooted (set_pathNode v n upd) n"
proof -
  from assms(2,3) have ne: "cur \<noteq> n" by auto
  have "parent (pathNode (blockPos (set_pathNode v n upd) n)) = Some cur"
    by (simp add: set_pathNode_def assms(4))
  moreover have "closed (pathNode (blockPos (set_pathNode v n upd) cur))"
    using assms(2) ne by (simp add: set_pathNode_def)
  moreover have "rooted (set_pathNode v n upd) cur"
    by (rule rooted_other [OF assms(1) ne assms(3)])
  ultimately show ?thesis by (rule rooted.step)
qed

text \<open>No panic of the search is the missing return of \<open>generatePath\<close>.\<close>

lemma Shapes_at_ends: "Shapes_at Shapes i \<noteq> Inl NoReturn"
  by (simp add: Shapes_at_def)

lemma Shapes_NoSupport_ends: "Shapes_NoSupport Shapes i \<noteq> Inl NoReturn"
  by (simp add: Shapes_NoSupport_def split: option.splits)

lemma blockPos_at_ends: "blockPos_at x y z \<noteq> Inl NoReturn"
  by (simp add: blockPos_at_def)

lemma search_loop_ends:
  assumes "\<And>c. fx c \<noteq> Inl NoReturn"
  shows "search_loop view fx cs \<noteq> Inl NoReturn"
proof (induction cs)
  case Nil
  show ?case by simp
next
  case (Cons c cs)
  obtain x y z where c: "c = (x, y, z)" by (cases c)
  from Cons assms [of "(x, y, z)"] show ?case
    by (auto simp: c split: option.splits sum.splits bool.splits)
qed

lemma blocks_ends: "blocks Shapes view bb src bp \<noteq> Inl NoReturn"
  using Shapes_at_ends [of Shapes]
  by (auto simp: blocks_def Let_def split: option.splits sum.splits if_splits)

lemma GetBlocker_ends: "GetBlocker Shapes view x y z \<noteq> Inl NoReturn"
  using search_loop_ends [OF blocks_ends]
  by (auto simp: GetBlocker_def getBlockerAt_def search_def Let_def
      split: option.splits prod.splits)

lemma getBlockerWithCache_ends: "getBlockerWithCache Shapes view node \<noteq> Inl NoReturn"
  using GetBlocker_ends [of Shapes view]
  by (auto simp: getBlockerWithCache_def Let_def split: sum.splits)

lemma dropDown_ends: "dropDown Shapes view x y z \<noteq> Inl NoReturn"
proof (induction Shapes view x y z rule: dropDown.induct)
  case (1 Shapes view x y z)
  show ?case
    using "1.IH" blockPos_at_ends [of x y "z - 1"] getBlockerWithCache_ends [of Shapes view]
    by (subst dropDown.simps) (auto split: sum.splits option.splits)
qed

lemma rejects_landing_ends: "rejects_landing Shapes view st \<noteq> Inl NoReturn"
  using Shapes_NoSupport_ends [of Shapes]
  by (auto simp: rejects_landing_def split: option.splits)

lemma same_z_or_step_up_ends: "same_z_or_step_up Shapes view x y z \<noteq> Inl NoReturn"
  using blockPos_at_ends [of x y] getBlockerWithCache_ends [of Shapes]
  by (auto simp: same_z_or_step_up_def split: sum.splits option.splits)

lemma tryMove_ends: "tryMove Shapes view x y z \<noteq> Inl NoReturn"
  using dropDown_ends [of Shapes view x y z] rejects_landing_ends [of Shapes]
    blockPos_at_ends [of x y] same_z_or_step_up_ends [of Shapes]
  by (auto simp: tryMove_def split: sum.splits bool.splits)

lemma try_append_ends:
  "acc \<noteq> Inl NoReturn \<Longrightarrow> try_append Shapes node guard dx dy acc \<noteq> Inl NoReturn"
  using tryMove_ends [of Shapes]
  by (auto simp: try_append_def tryInDir_def Let_def split: sum.splits option.splits)

lemma astarNeighbors_ends: "astarNeighbors Shapes view node \<noteq> Inl NoReturn"
  by (simp add: astarNeighbors_def Let_def try_append_ends)

lemma heuristic_ends: "heuristic view a b \<noteq> Inl NoReturn"
  by (auto simp: heuristic_def Let_def split: option.splits)

lemma visit_neighbor_ends: "visit_neighbor view cur n ol \<noteq> Inl NoReturn"
  using heuristic_ends [of view n]
  by (auto simp: visit_neighbor_def Let_def split: option.splits sum.splits)

lemma visit_neighbors_ends: "visit_neighbors view cur ns ol \<noteq> Inl NoReturn"
  by (induction ns arbitrary: view ol) (auto simp: visit_neighbor_ends split: sum.splits)

text \<open>The probes of the neighbours leave the links alone.\<close>

lemma getBlockerWithCache_links:
  assumes "getBlockerWithCache Shapes view node = Inr (b, view')"
  shows "links view' = links view"
  using assms
  by (auto simp: getBlockerWithCache_def Let_def links_set_pathNode
      split: if_splits sum.splits)

lemma dropDown_links:
  "dropDown Shapes view x y z = Inr (r, view') \<Longrightarrow> links view' = links view"
proof (induction Shapes view x y z rule: dropDown.induct)
  case (1 Shapes view x y z)
  show ?case
  proof (cases "0 <s z")
    case False
    with "1.prems" show ?thesis by (simp add: dropDown.simps [of Shapes view x y z])
  next
    case True
    from "1.prems" True obtain below b v1 where
      bl: "blockPos_at x y (z - 1) = Inr below"
      and g: "getBlockerWithCache Shapes view below = Inr (b, v1)"
      by (auto simp: dropDown.simps [of Shapes view x y z] split: sum.splits)
    note v1 = getBlockerWithCache_links [OF g]
    show ?thesis
    proof (cases b)
      case (Some s)
      with "1.prems" True bl g v1 show ?thesis
        by (simp add: dropDown.simps [of Shapes view x y z])
    next
      case None
      with "1.prems" True bl g have "dropDown Shapes v1 x y (z - 1) = Inr (r, view')"
        by (simp add: dropDown.simps [of Shapes view x y z])
      from "1.IH" [OF True bl g _ None this] v1 show ?thesis by simp
    qed
  qed
qed

lemma same_z_or_step_up_links:
  assumes "same_z_or_step_up Shapes view x y z = Inr (r, view')"
  shows "links view' = links view"
proof -
  from assms obtain n b v2 where n: "blockPos_at x y z = Inr n"
    and g: "getBlockerWithCache Shapes view n = Inr (b, v2)"
    by (auto simp: same_z_or_step_up_def split: sum.splits)
  note a = getBlockerWithCache_links [OF g]
  show ?thesis
  proof (cases b)
    case None
    with assms n g a show ?thesis by (auto simp: same_z_or_step_up_def)
  next
    case (Some s)
    with assms n g obtain u b3 v3 where u: "blockPos_at x y (z + 1) = Inr u"
      and g3: "getBlockerWithCache Shapes v2 u = Inr (b3, v3)"
      by (auto simp: same_z_or_step_up_def split: sum.splits)
    note a3 = getBlockerWithCache_links [OF g3]
    from assms n g Some u g3 a a3 show ?thesis
      by (cases b3) (auto simp: same_z_or_step_up_def)
  qed
qed

lemma tryMove_links:
  assumes "tryMove Shapes view x y z = Inr (r, view')"
  shows "links view' = links view"
proof -
  from assms obtain z1 st v1 rej where d: "dropDown Shapes view x y z = Inr ((z1, st), v1)"
    and rj: "rejects_landing Shapes v1 st = Inr rej"
    by (auto simp: tryMove_def split: sum.splits)
  note a = dropDown_links [OF d]
  show ?thesis
  proof (cases "rej \<or> z1 <s z")
    case True
    with assms d rj a show ?thesis
      by (auto simp: tryMove_def split: sum.splits if_splits bool.splits)
  next
    case False
    with assms d rj have "same_z_or_step_up Shapes v1 x y z = Inr (r, view')"
      by (simp add: tryMove_def)
    from same_z_or_step_up_links [OF this] a show ?thesis by simp
  qed
qed

lemma try_append_links:
  assumes "try_append Shapes node guard dx dy acc = Inr (ret', view')"
  obtains ret view where "acc = Inr (ret, view)" "links view' = links view"
proof -
  from assms obtain ret view where acc: "acc = Inr (ret, view)"
    by (cases acc) (auto simp: try_append_def)
  have "links view' = links view"
    using assms acc
    by (auto simp: try_append_def tryInDir_def Let_def split: if_splits sum.splits option.splits
        dest!: tryMove_links)
  with acc that show ?thesis by blast
qed

lemma astarNeighbors_links:
  assumes "astarNeighbors Shapes view node = Inr (ns, view')"
  shows "links view' = links view"
proof -
  let ?nx = "bp_x (blockPos view node)" and ?ny = "bp_y (blockPos view node)"
  from assms have a4: "try_append Shapes node (?ny + 1 <s SIZE) 0 1
        (try_append Shapes node (0 \<le>s ?ny - 1) 0 (-1)
          (try_append Shapes node (?nx + 1 <s SIZE) 1 0
            (try_append Shapes node (0 \<le>s ?nx - 1) (-1) 0 (Inr ([], view))))) = Inr (ns, view')"
    by (simp add: astarNeighbors_def Let_def)
  from a4 obtain r3 v3 where a3: "try_append Shapes node (0 \<le>s ?ny - 1) 0 (-1)
          (try_append Shapes node (?nx + 1 <s SIZE) 1 0
            (try_append Shapes node (0 \<le>s ?nx - 1) (-1) 0 (Inr ([], view)))) = Inr (r3, v3)"
    and p4: "links view' = links v3"
    by (rule try_append_links)
  from a3 obtain r2 v2 where a2: "try_append Shapes node (?nx + 1 <s SIZE) 1 0
            (try_append Shapes node (0 \<le>s ?nx - 1) (-1) 0 (Inr ([], view))) = Inr (r2, v2)"
    and p3: "links v3 = links v2"
    by (rule try_append_links)
  from a2 obtain r1 v1 where a1: "try_append Shapes node (0 \<le>s ?nx - 1) (-1) 0 (Inr ([], view)) = Inr (r1, v1)"
    and p2: "links v2 = links v1"
    by (rule try_append_links)
  from a1 obtain r0 v0 where a0: "(Inr ([], view) :: error + cell list \<times> View) = Inr (r0, v0)"
    and p1: "links v1 = links v0"
    by (rule try_append_links)
  from a0 have "v0 = view" by simp
  with p1 p2 p3 p4 show ?thesis by simp
qed

text \<open>The open list holds rooted cells.\<close>

lemma lowest_f_in_range:
  "lowInd < length ol \<Longrightarrow> \<forall>i \<in> set js. i < length ol \<Longrightarrow> lowest_f view ol js lowInd < length ol"
  by (induction js arbitrary: lowInd) auto

lemma set_remove: "set (remove s i) \<subseteq> set s"
proof (cases "s = []")
  case True
  then show ?thesis by (simp add: remove_def)
next
  case False
  then have "last s \<in> set s" by simp
  moreover have "set (s[i := last s]) \<subseteq> insert (last s) (set s)"
    by (rule set_update_subset_insert)
  moreover have "set (butlast (s[i := last s])) \<subseteq> set (s[i := last s])"
    by (auto dest: in_set_butlastD)
  ultimately show ?thesis unfolding remove_def by blast
qed

text \<open>While the neighbours of \<open>cur\<close> are visited: \<open>cur\<close> is closed and rooted, and so is every
  cell of the open list.\<close>

definition grown :: "View \<Rightarrow> cell \<Rightarrow> cell list \<Rightarrow> bool" where
  "grown view cur ol \<longleftrightarrow>
     closed (pathNode (blockPos view cur)) \<and> rooted view cur \<and> list_all (rooted view) ol"

lemma reparent_grown:
  assumes g: "grown view cur ol" and n: "\<not> closed (pathNode (blockPos view n))"
    and upd: "\<And>pn. parent (upd pn) = Some cur"
  shows "grown (set_pathNode view n upd) cur (ol @ [n])"
proof -
  let ?v = "set_pathNode view n upd"
  from g have c: "closed (pathNode (blockPos view cur))" and r: "rooted view cur"
    and l: "list_all (rooted view) ol" by (simp_all add: grown_def)
  from c n have ne: "cur \<noteq> n" by auto
  have 1: "closed (pathNode (blockPos ?v cur))" using c ne by (simp add: set_pathNode_def)
  have 2: "rooted ?v cur" by (rule rooted_other [OF r ne n])
  have 3: "rooted ?v n" by (rule rooted_new_parent [OF r c n upd])
  have 4: "rooted ?v x" if "rooted view x" for x
    using that 3 rooted_other [OF _ _ n, of x upd] by (cases "x = n") auto
  from l 4 have "list_all (rooted ?v) ol" by (auto simp: list_all_iff)
  with 1 2 3 show ?thesis by (simp add: grown_def)
qed

lemma grown_links:
  assumes "grown v cur ol" and "links v' = links v"
  shows "grown v' cur ol"
proof -
  from assms(2) have "links v' cur = links v cur" by simp
  then have "closed (pathNode (blockPos v' cur)) = closed (pathNode (blockPos v cur))"
    by (simp add: links_def)
  moreover have "rooted v' x" if "rooted v x" for x
    using that assms(2) by (rule rooted_links)
  ultimately show ?thesis using assms(1) by (auto simp: grown_def list_all_iff)
qed

lemma grown_butlast: "grown view cur (ol @ [n]) \<Longrightarrow> grown view cur ol"
  by (simp add: grown_def)

lemma visit_neighbor_grown:
  assumes "visit_neighbor view cur n ol = Inr (view', ol')" and "grown view cur ol"
  shows "grown view' cur ol'"
proof (cases "closed (pathNode (blockPos view n))")
  case True
  with assms show ?thesis by (simp add: visit_neighbor_def)
next
  case False
  show ?thesis
  proof (cases "visited (pathNode (blockPos view n))")
    case vis: False
    with assms(1) False obtain hv where
      v': "view' = set_pathNode view n
                   (\<lambda>pn. pn\<lparr>pn_h := hv, visited := True, parent := Some cur,
                            pn_g := pn_g (pathNode (blockPos view cur)) + 1,
                            pn_f := pn_g (pathNode (blockPos view cur)) + 1 + hv\<rparr>)"
      and ol': "ol' = ol @ [n]"
      by (auto simp: visit_neighbor_def Let_def split: option.splits sum.splits)
    show ?thesis unfolding v' ol' by (rule reparent_grown [OF assms(2) False]) simp
  next
    case vis: True
    show ?thesis
    proof (cases "pn_g (pathNode (blockPos view cur)) + 1 <s pn_g (pathNode (blockPos view n))")
      case True
      with assms(1) False vis have
        v': "view' = set_pathNode view n
                   (\<lambda>pn. pn\<lparr>parent := Some cur,
                            pn_g := pn_g (pathNode (blockPos view cur)) + 1,
                            pn_f := pn_g (pathNode (blockPos view cur)) + 1 + pn_h pn\<rparr>)"
        and ol': "ol' = ol"
        by (auto simp: visit_neighbor_def Let_def)
      show ?thesis unfolding v' ol'
        by (rule grown_butlast, rule reparent_grown [OF assms(2) False]) simp
    next
      case lt: False
      with assms False vis show ?thesis by (simp add: visit_neighbor_def Let_def)
    qed
  qed
qed

lemma visit_neighbors_grown:
  assumes "visit_neighbors view cur ns ol = Inr (view', ol')" and "grown view cur ol"
  shows "grown view' cur ol'"
  using assms
proof (induction ns arbitrary: view ol)
  case Nil
  then show ?case by simp
next
  case (Cons n ns)
  from Cons.prems(1) obtain v1 ol1 where
    s: "visit_neighbor view cur n ol = Inr (v1, ol1)"
    and r: "visit_neighbors v1 cur ns ol1 = Inr (view', ol')"
    by (auto split: sum.splits)
  from Cons.IH [OF r visit_neighbor_grown [OF s Cons.prems(2)]] show ?case .
qed

lemma astar_turn_rooted:
  assumes ol: "openList \<noteq> []" and inv: "list_all (rooted view) openList"
  shows "case astar_turn Shapes view openList of
           Return steps view' \<Rightarrow> True
         | Panic e \<Rightarrow> e \<noteq> NoReturn
         | Next view' openList' \<Rightarrow> list_all (rooted view') openList'"
proof -
  let ?low = "lowest_f view openList [0..<length openList] 0"
  let ?cur = "openList ! ?low"
  from ol have "?low < length openList" by (intro lowest_f_in_range) auto
  then have cur: "?cur \<in> set openList" by simp
  with inv have rc: "rooted view ?cur" by (simp add: list_all_iff)
  show ?thesis
  proof (cases "startBox (view_context view)")
    case None
    then show ?thesis by (simp add: astar_turn_def Let_def)
  next
    case sb: (Some sb)
    show ?thesis
    proof (cases "endBox (view_context view)")
      case None
      with sb show ?thesis by (simp add: astar_turn_def Let_def)
    next
      case eb: (Some eb)
      let ?sb' = "SetPos sb (bp_x (blockPos view ?cur)) (bp_y (blockPos view ?cur))
                    (bp_z (blockPos view ?cur))"
      let ?view1 = "view\<lparr>view_context := (view_context view)\<lparr>startBox := Some ?sb'\<rparr>\<rparr>"
      let ?view2 = "set_pathNode ?view1 ?cur (\<lambda>pn. pn\<lparr>closed := True\<rparr>)"
      have r1: "rooted ?view1 x" if "rooted view x" for x
        using that by (rule rooted_links) simp
      show ?thesis
      proof (cases "intersect ?sb' eb")
        case True
        from rooted_generatePath [OF r1 [OF rc], of "[]"]
        have "generatePath ?view1 ?cur \<noteq> Inl NoReturn"
          by (auto simp: generatePath_def split: option.splits)
        with sb eb True show ?thesis
          by (auto simp: astar_turn_def Let_def split: sum.splits)
      next
        case False
        have g2: "grown ?view2 ?cur (remove openList ?low)"
        proof -
          have "closed (pathNode (blockPos ?view2 ?cur))" by (simp add: set_pathNode_def)
          moreover have "rooted ?view2 x" if "rooted view x" for x
            using r1 [OF that] by (rule rooted_close)
          ultimately show ?thesis
            using rc inv set_remove [of openList ?low] by (auto simp: grown_def list_all_iff)
        qed
        show ?thesis
        proof (cases "astarNeighbors Shapes ?view2 ?cur")
          case (Inl e)
          with astarNeighbors_ends [of Shapes ?view2 ?cur] have "e \<noteq> NoReturn" by auto
          with sb eb False Inl show ?thesis by (simp add: astar_turn_def Let_def)
        next
          case (Inr nv)
          obtain ns v3 where nv: "nv = (ns, v3)" by (cases nv)
          from astarNeighbors_links [OF Inr [unfolded nv]]
          have l3: "links v3 = links ?view2" .
          have g3: "grown v3 ?cur (remove openList ?low)"
            using g2 l3 by (rule grown_links)
          show ?thesis
          proof (cases "visit_neighbors v3 ?cur ns (remove openList ?low)")
            case e: (Inl e)
            with visit_neighbors_ends [of v3 ?cur ns "remove openList ?low"]
            have "e \<noteq> NoReturn" by auto
            with sb eb False Inr nv e show ?thesis by (simp add: astar_turn_def Let_def)
          next
            case r: (Inr vo)
            obtain v4 ol2 where vo: "vo = (v4, ol2)" by (cases vo)
            from visit_neighbors_grown [OF r [unfolded vo] g3]
            have "list_all (rooted v4) ol2" by (simp add: grown_def)
            with sb eb False Inr nv r vo show ?thesis by (simp add: astar_turn_def Let_def)
          qed
        qed
      qed
    qed
  qed
qed

lemma astar_loop_ends:
  "list_all (rooted view) openList \<Longrightarrow> astar_loop Shapes view openList \<noteq> Inl NoReturn"
proof (induction Shapes view openList rule: astar_loop.induct)
  case (1 Shapes view openList)
  show ?case
  proof (cases "openList = []")
    case True
    then show ?thesis by (simp add: astar_loop_Nil)
  next
    case False
    from astar_turn_rooted [OF False "1.prems", of Shapes] "1.IH" [OF False]
    show ?thesis
      by (cases "astar_turn Shapes view openList") (simp_all add: astar_loop_turn [OF False])
  qed
qed

lemma findPath_ends:
  assumes "\<And>s. ctx_start (view_context view) = Some s \<Longrightarrow> valid_cell s"
  shows "findPath Shapes view \<noteq> Inl NoReturn"
proof (cases "ctx_start (view_context view)")
  case None
  then show ?thesis by (simp add: findPath_def resetPathFind_def)
next
  case (Some s)
  obtain x y z where s: "s = (x, y, z)" by (cases s)
  from assms [OF Some] have "isValidViewPos x y z" by (simp add: valid_cell_def s)
  then have "parent (pathNode (blockPos (resetPathFind view) s)) = None"
    by (simp add: resetPathFind_def s)
  then have "rooted (resetPathFind view) s" by (rule rooted.root)
  then have "astar_loop Shapes (resetPathFind view) [s] \<noteq> Inl NoReturn"
    by (intro astar_loop_ends) simp
  with Some show ?thesis by (simp add: findPath_def resetPathFind_def)
qed

text \<open>\<open>FindPath\<close> returns or panics: on no view does it run forever.\<close>

lemma FindPath_ends:
  "FindPath Shapes view sx sy sz ex ey ez flying dSrc dDst \<noteq> Inl NoReturn"
proof -
  let ?view1 = "view\<lparr>view_context := (view_context view)\<lparr>isFlying := flying, isPathing := True\<rparr>\<rparr>"
  obtain svx svy svz sok where s: "toViewPos ?view1 sx sy sz = (svx, svy, svz, sok)"
    by (cases "toViewPos ?view1 sx sy sz")
  obtain evx evy evz eok where e: "toViewPos ?view1 ex ey ez = (evx, evy, evz, eok)"
    by (cases "toViewPos ?view1 ex ey ez")
  show ?thesis
  proof (cases "sok \<and> eok")
    case False
    then show ?thesis by (auto simp: FindPath_def Let_def s e)
  next
    case True
    let ?first = "?view1\<lparr>view_context := (view_context ?view1)
                      \<lparr>ctx_start := Some (svx, svy, svz),
                       ctx_end := Some (evx, evy, evz),
                       startBox := Some \<lparr>box_X = svx, box_Y = svy, box_Z = svz,
                                          box_W = dSrc, box_H = dSrc, box_D = 4\<rparr>,
                       endBox := Some \<lparr>box_X = evx, box_Y = evy, box_Z = evz,
                                        box_W = dDst, box_H = dDst, box_D = 4\<rparr>,
                       usePathThrough := False\<rparr>\<rparr>"
    from s True have val: "valid_cell (svx, svy, svz)"
      by (auto simp: toViewPos_def Let_def valid_cell_def)
    have f1: "findPath Shapes ?first \<noteq> Inl NoReturn"
      by (rule findPath_ends) (use val in simp)
    have f2: "findPath Shapes (v\<lparr>view_context := (view_context v)\<lparr>usePathThrough := True\<rparr>\<rparr>)
                \<noteq> Inl NoReturn"
      if "findPath Shapes ?first = Inr (r, v)" for r v
    proof (rule findPath_ends)
      fix c
      assume c: "ctx_start (view_context (v\<lparr>view_context := (view_context v)\<lparr>usePathThrough := True\<rparr>\<rparr>)) = Some c"
      from findPath_context [OF that]
      have "ctx_start (context_but_startBox v) = ctx_start (context_but_startBox ?first)" by simp
      then have "ctx_start (view_context v) = Some (svx, svy, svz)"
        by (simp add: context_but_startBox_def)
      with c val show "valid_cell c" by simp
    qed
    show ?thesis
    proof (cases "findPath Shapes ?first")
      case (Inl err)
      with f1 True show ?thesis by (auto simp: FindPath_def Let_def s e)
    next
      case (Inr rv)
      obtain r v where rv: "rv = (r, v)" by (cases rv)
      from f2 [OF Inr [unfolded rv]] Inr rv True show ?thesis
        by (auto simp: FindPath_def Let_def s e split: option.splits sum.splits)
    qed
  qed
qed

text \<open>What blocks in each of the two searches.\<close>

lemma blocks_first_search:
  assumes "isPathing (view_context v)" and "\<not> usePathThrough (view_context v)"
    and "ctx_end (view_context v) = Some e" and "pos (blockPos v bp) = Some bpos"
  shows "blocks Shapes v bb src bp
         = Inr (\<not> holds_destination_block v bp \<and> solid_for v bb src bp)"
  using assms
  by (auto simp: blocks_def holds_destination_block_def solid_for_def Let_def
      split: option.splits)

lemma blocks_second_search:
  assumes "isPathing (view_context v)" and "usePathThrough (view_context v)"
    and "ctx_end (view_context v) = Some e" and "pos (blockPos v bp) = Some bpos"
    and "Shapes_at Shapes (Block bpos - 1) = Inr shape"
  shows "blocks Shapes v bb src bp
         = Inr (shape \<notin> pathThroughShapes (view_context v)
                \<and> \<not> holds_destination_block v bp \<and> solid_for v bb src bp)"
  using assms
  by (auto simp: blocks_def holds_destination_block_def solid_for_def Let_def
      split: option.splits)

lemma context_but_startBox_fields:
  assumes "context_but_startBox v = c"
  shows "isPathing (view_context v) = isPathing c"
    and "usePathThrough (view_context v) = usePathThrough c"
    and "ctx_end (view_context v) = ctx_end c"
    and "pathThroughShapes (view_context v) = pathThroughShapes c"
  using assms by (auto simp: context_but_startBox_def)




end
